theory Spec2Isabelle
  imports Complex_Main "HOL-Library.Log_Nat"
begin

section \<open>Data model\<close>

text \<open>
  The statistics engine of \<^verbatim>\<open>process_data_file_for_metadata_health_api.py\<close> works on
  nested Python dictionaries. A dictionary is modelled as an association list with
  distinct keys, read with \<open>map_of\<close>; Python compares dictionaries without regard to
  insertion order, so equality of the lists implies equality of the dictionaries.
  Counters are Python's unbounded integers (\<open>int\<close>); a completeness ratio, a Python
  float obtained by one true division of two integers, is held as the exact quotient, and
  the double that stands for it is computed where its value is read (the final rounding).
\<close>

type_synonym ('k, 'v) dict = "('k \<times> 'v) list"

record subfield_stats =
  sf_count :: int
  sf_instances :: int
  sf_missing :: int
  sf_completeness :: rat
  sf_values :: "(string, int) dict option"

record field_stats =
  fs_count :: int
  fs_instances :: int
  fs_fieldStatus :: "string option"
  fs_completeness :: rat
  fs_missing :: int
  fs_subfields :: "(string, subfield_stats) dict option"

record category_metrics =
  mandatory :: rat
  recommended :: rat
  optional :: rat

record stats_tree =
  st_count :: int
  st_fields :: "(string, field_stats) dict"
  st_categories :: category_metrics

record entity_stats =
  summary :: stats_tree
  byResourceType :: "(string, stats_tree) dict"

text \<open>\<^verbatim>\<open>d[k] = v\<close>: replaces the value of an existing key in place, else appends.\<close>

fun dict_set :: "('k, 'v) dict \<Rightarrow> 'k \<Rightarrow> 'v \<Rightarrow> ('k, 'v) dict" where
  "dict_set [] k v = [(k, v)]"
| "dict_set ((k', v') # rest) k v =
     (if k' = k then (k, v) # rest else (k', v') # dict_set rest k v)"

text \<open>A value of the configuration table: \<open>True\<close>/\<open>False\<close> (the \<open>multiple\<close> flag),
  a set of permitted values, or a dictionary such as \<open>{'scheme': False}\<close>.\<close>

datatype cfg = CBool bool | CSet "string list" | CDict "(string, bool) dict"

section \<open>Schema registry: \<open>StatsContainer.FIELD_STATUS\<close> and \<open>SUBFIELD_STATS\<close>\<close>

definition FIELD_STATUS :: "(string, string) dict" where
  "FIELD_STATUS =
    [(''identifier'', ''mandatory''), (''creators'', ''mandatory''), (''titles'', ''mandatory''),
     (''publisher'', ''mandatory''), (''publicationYear'', ''mandatory''),
     (''resourceType'', ''mandatory''),
     (''subjects'', ''recommended''), (''contributors'', ''recommended''),
     (''date'', ''recommended''), (''relatedIdentifiers'', ''recommended''),
     (''description'', ''recommended''), (''geoLocations'', ''recommended''),
     (''language'', ''optional''), (''alternateIdentifiers'', ''optional''),
     (''sizes'', ''optional''), (''formats'', ''optional''), (''version'', ''optional''),
     (''rights'', ''optional''), (''fundingReferences'', ''optional''),
     (''relatedItems'', ''optional'')]"

definition resourceTypeGeneral_values :: "string list" where
  "resourceTypeGeneral_values =
    [''Audiovisual'', ''Book'', ''BookChapter'', ''Collection'', ''ComputationalNotebook'',
     ''ConferencePaper'', ''ConferenceProceeding'', ''Dataset'', ''Dissertation'', ''Event'',
     ''Image'', ''InteractiveResource'', ''Journal'', ''JournalArticle'', ''Model'',
     ''OutputManagementPlan'', ''PeerReview'', ''PhysicalObject'', ''Preprint'', ''Report'',
     ''Service'', ''Software'', ''Sound'', ''Standard'', ''Text'', ''Workflow'', ''Other'',
     ''Unknown'']"

definition creators_config :: "(string, cfg) dict" where
  "creators_config =
    [(''multiple'', CBool True),
     (''nameType'', CSet [''Personal'', ''Organizational'']),
     (''nameIdentifier'', CDict [(''scheme'', False)]),
     (''nameIdentifierScheme'', CSet [''ORCID'', ''ROR'', ''ISNI'']),
     (''affiliation'', CDict [(''scheme'', False)]),
     (''affiliationIdentifier'', CDict [(''scheme'', False)]),
     (''affiliationIdentifierScheme'', CSet [''ROR'', ''GRID'', ''ISNI''])]"

definition contributors_config :: "(string, cfg) dict" where
  "contributors_config =
    [(''multiple'', CBool True),
     (''contributorType'',
        CSet [''ContactPerson'', ''DataCollector'', ''DataCurator'', ''DataManager'',
              ''Distributor'', ''Editor'', ''HostingInstitution'', ''Producer'',
              ''ProjectLeader'', ''ProjectManager'', ''ProjectMember'', ''RegistrationAgency'',
              ''RegistrationAuthority'', ''RelatedPerson'', ''Researcher'', ''ResearchGroup'',
              ''RightsHolder'', ''Sponsor'', ''Supervisor'', ''WorkPackageLeader'', ''Other'']),
     (''nameIdentifier'', CDict [(''scheme'', False)]),
     (''nameIdentifierScheme'', CSet [''ORCID'', ''ROR'', ''ISNI'']),
     (''affiliation'', CDict [(''scheme'', False)]),
     (''affiliationIdentifier'', CDict [(''scheme'', False)]),
     (''affiliationIdentifierScheme'', CSet [''ROR'', ''GRID'', ''ISNI''])]"

definition resourceType_config :: "(string, cfg) dict" where
  "resourceType_config =
    [(''multiple'', CBool False),
     (''resourceTypeGeneral'', CSet resourceTypeGeneral_values)]"

definition relatedIdentifiers_config :: "(string, cfg) dict" where
  "relatedIdentifiers_config =
    [(''multiple'', CBool True),
     (''relationType'',
        CSet [''IsCitedBy'', ''Cites'', ''IsSupplementTo'', ''IsSupplementedBy'',
              ''IsContinuedBy'', ''Continues'', ''IsDescribedBy'', ''Describes'',
              ''HasMetadata'', ''IsMetadataFor'', ''HasVersion'', ''IsVersionOf'',
              ''IsNewVersionOf'', ''IsPreviousVersionOf'', ''IsPartOf'', ''HasPart'',
              ''IsPublishedIn'', ''IsReferencedBy'', ''References'', ''IsDocumentedBy'',
              ''Documents'', ''IsCompiledBy'', ''Compiles'', ''IsVariantFormOf'',
              ''IsOriginalFormOf'', ''IsIdenticalTo'', ''IsReviewedBy'', ''Reviews'',
              ''IsDerivedFrom'', ''IsSourceOf'', ''Requires'', ''IsRequiredBy'',
              ''Obsoletes'', ''IsObsoletedBy'']),
     (''relatedIdentifierType'',
        CSet [''ARK'', ''arXiv'', ''bibcode'', ''DOI'', ''EAN13'', ''EISSN'', ''Handle'',
              ''IGSN'', ''ISBN'', ''ISSN'', ''ISTC'', ''LISSN'', ''LSID'', ''PMID'', ''PURL'',
              ''UPC'', ''URL'', ''URN'', ''w3id'']),
     (''resourceTypeGeneral'', CSet resourceTypeGeneral_values)]"

definition fundingReferences_config :: "(string, cfg) dict" where
  "fundingReferences_config =
    [(''multiple'', CBool True),
     (''funderName'', CDict [(''scheme'', False)]),
     (''funderIdentifier'', CDict [(''scheme'', False)]),
     (''funderIdentifierType'', CSet [''Crossref Funder ID'', ''ROR'', ''Other'']),
     (''awardNumber'', CDict [(''scheme'', False)]),
     (''awardURI'', CDict [(''scheme'', False)]),
     (''awardTitle'', CDict [(''scheme'', False)])]"

definition SUBFIELD_STATS :: "(string, (string, cfg) dict) dict" where
  "SUBFIELD_STATS =
    [(''creators'', creators_config),
     (''contributors'', contributors_config),
     (''resourceType'', resourceType_config),
     (''relatedIdentifiers'', relatedIdentifiers_config),
     (''fundingReferences'', fundingReferences_config)]"

section \<open>Stats structure factory\<close>

definition zero_values :: "string list \<Rightarrow> (string, int) dict" where
  "zero_values vals = map (\<lambda>val. (val, 0)) vals"

definition empty_subfield_stats :: "(string, int) dict option \<Rightarrow> subfield_stats" where
  "empty_subfield_stats vs =
     \<lparr>sf_count = 0, sf_instances = 0, sf_missing = 0, sf_completeness = 0, sf_values = vs\<rparr>"

text \<open>Iterating a configuration value, as the comprehension
  \<^verbatim>\<open>{val: 0 for val in subfields[scheme_field]}\<close> does: the elements of a set, the keys
  of a dictionary. (A flag is not iterable; no entry of the table reaches that case,
  since every \<open>scheme\<close> flag is \<open>False\<close>.)\<close>

fun cfg_elements :: "cfg \<Rightarrow> string list" where
  "cfg_elements (CSet vs) = vs"
| "cfg_elements (CDict d) = map fst d"
| "cfg_elements (CBool b) = []"

text \<open>The loop of \<open>create_empty_field_stats\<close> over \<open>subfields.items()\<close>.\<close>

fun create_subfields :: "(string, cfg) dict \<Rightarrow> (string, cfg) dict \<Rightarrow> (string, subfield_stats) dict" where
  "create_subfields subfields [] = []"
| "create_subfields subfields ((subfield, vals) # rest) =
     (if subfield = ''multiple'' then create_subfields subfields rest
      else case vals of
        CSet vs \<Rightarrow>
          (subfield, empty_subfield_stats (Some (zero_values vs))) # create_subfields subfields rest
      | CDict d \<Rightarrow>
          (subfield,
             empty_subfield_stats
               (if map_of d ''scheme'' = Some True
                then (case map_of subfields (subfield @ ''Scheme'') of
                        Some c \<Rightarrow> Some (zero_values (cfg_elements c))
                      | None \<Rightarrow> None)
                else None)) # create_subfields subfields rest
      | CBool b \<Rightarrow> create_subfields subfields rest)"

definition create_empty_field_stats :: "string \<Rightarrow> string \<Rightarrow> field_stats" where
  "create_empty_field_stats field_name field_status =
     \<lparr>fs_count = 0, fs_instances = 0, fs_fieldStatus = Some field_status,
      fs_completeness = 0, fs_missing = 0,
      fs_subfields = (case map_of SUBFIELD_STATS field_name of
                        Some subfields \<Rightarrow> Some (create_subfields subfields subfields)
                      | None \<Rightarrow> None)\<rparr>"

definition zero_categories :: category_metrics where
  "zero_categories = \<lparr>mandatory = 0, recommended = 0, optional = 0\<rparr>"

definition create_empty_tree :: stats_tree where
  "create_empty_tree =
     \<lparr>st_count = 0,
      st_fields = map (\<lambda>(field_name, field_status).
                         (field_name, create_empty_field_stats field_name field_status))
                      FIELD_STATUS,
      st_categories = zero_categories\<rparr>"

definition create_empty_stats :: entity_stats where
  "create_empty_stats =
     \<lparr>summary = create_empty_tree,
      byResourceType =
        map (\<lambda>resource_type. (resource_type, create_empty_tree))
            (case map_of resourceType_config ''resourceTypeGeneral'' of
               Some c \<Rightarrow> cfg_elements c | None \<Rightarrow> [])\<rparr>"

section \<open>Category metrics\<close>

record cat_acc =
  acc_count :: int
  acc_total :: int
  acc_num_fields :: int

definition zero_acc :: cat_acc where
  "zero_acc = \<lparr>acc_count = 0, acc_total = 0, acc_num_fields = 0\<rparr>"

text \<open>The first loop of \<open>calculate_category_metrics\<close>, for one status class: a field
  whose \<open>fieldStatus\<close> is the class adds one to \<open>num_fields\<close> and its count to \<open>count\<close>.\<close>

fun accumulate :: "string \<Rightarrow> (string, field_stats) dict \<Rightarrow> cat_acc \<Rightarrow> cat_acc" where
  "accumulate status [] acc = acc"
| "accumulate status ((field_name, field_stats) # rest) acc =
     accumulate status rest
       (if fs_fieldStatus field_stats = Some status
        then acc\<lparr>acc_num_fields := acc_num_fields acc + 1,
                 acc_count := acc_count acc + fs_count field_stats\<rparr>
        else acc)"

definition set_total :: "int \<Rightarrow> cat_acc \<Rightarrow> cat_acc" where
  "set_total total_dois acc =
     (if acc_num_fields acc > 0 then acc\<lparr>acc_total := total_dois * acc_num_fields acc\<rparr> else acc)"

definition acc_completeness :: "cat_acc \<Rightarrow> rat" where
  "acc_completeness acc =
     (if acc_total acc > 0 then of_int (acc_count acc) / of_int (acc_total acc) else 0)"

definition category_completeness :: "string \<Rightarrow> (string, field_stats) dict \<Rightarrow> int \<Rightarrow> rat" where
  "category_completeness status flds total_dois =
     acc_completeness (set_total total_dois (accumulate status flds zero_acc))"

definition calculate_category_metrics :: "(string, field_stats) dict \<Rightarrow> int \<Rightarrow> category_metrics" where
  "calculate_category_metrics flds total_dois =
     \<lparr>mandatory = category_completeness ''mandatory'' flds total_dois,
      recommended = category_completeness ''recommended'' flds total_dois,
      optional = category_completeness ''optional'' flds total_dois\<rparr>"

section \<open>Tree merger\<close>

text \<open>The keys of two dictionaries, each once: Python builds
  \<^verbatim>\<open>set(d1.keys()) | set(d2.keys())\<close>, whose iteration order is unspecified; the model
  lists the keys of the first dictionary, then the new keys of the second.\<close>

definition union_keys :: "('k, 'a) dict \<Rightarrow> ('k, 'a) dict \<Rightarrow> 'k list" where
  "union_keys d1 d2 = map fst d1 @ filter (\<lambda>k. k \<notin> set (map fst d1)) (map fst d2)"

text \<open>\<^verbatim>\<open>d.get(key, 0)\<close> on a dictionary that may itself be the default
  \<^verbatim>\<open>{'count': 0, 'instances': 0}\<close> (or \<^verbatim>\<open>{}\<close>) of a missing entry.\<close>

definition get_int :: "(string, int) dict \<Rightarrow> string \<Rightarrow> int" where
  "get_int d k = (case map_of d k of Some c \<Rightarrow> c | None \<Rightarrow> 0)"

definition sf_get_count :: "subfield_stats option \<Rightarrow> int" where
  "sf_get_count s = (case s of Some x \<Rightarrow> sf_count x | None \<Rightarrow> 0)"

definition sf_get_instances :: "subfield_stats option \<Rightarrow> int" where
  "sf_get_instances s = (case s of Some x \<Rightarrow> sf_instances x | None \<Rightarrow> 0)"

definition sf_get_values :: "subfield_stats option \<Rightarrow> (string, int) dict option" where
  "sf_get_values s = (case s of Some x \<Rightarrow> sf_values x | None \<Rightarrow> None)"

definition fs_get_count :: "field_stats option \<Rightarrow> int" where
  "fs_get_count f = (case f of Some x \<Rightarrow> fs_count x | None \<Rightarrow> 0)"

definition fs_get_instances :: "field_stats option \<Rightarrow> int" where
  "fs_get_instances f = (case f of Some x \<Rightarrow> fs_instances x | None \<Rightarrow> 0)"

definition fs_get_missing :: "field_stats option \<Rightarrow> int" where
  "fs_get_missing f = (case f of Some x \<Rightarrow> fs_missing x | None \<Rightarrow> 0)"

definition fs_get_subfields :: "field_stats option \<Rightarrow> (string, subfield_stats) dict option" where
  "fs_get_subfields f = (case f of Some x \<Rightarrow> fs_subfields x | None \<Rightarrow> None)"

text \<open>\<^verbatim>\<open>field_stats1.get('fieldStatus', field_stats2.get('fieldStatus'))\<close>: the status of
  the first side when it has that key, otherwise whatever the second side has. A missing
  field stands for the default \<^verbatim>\<open>{'count': 0, 'instances': 0}\<close>, which has no status.\<close>

definition fs_get_fieldStatus :: "field_stats option \<Rightarrow> field_stats option \<Rightarrow> string option" where
  "fs_get_fieldStatus f1 f2 =
     (case (case f1 of Some x \<Rightarrow> fs_fieldStatus x | None \<Rightarrow> None) of
        Some status \<Rightarrow> Some status
      | None \<Rightarrow> (case f2 of Some y \<Rightarrow> fs_fieldStatus y | None \<Rightarrow> None))"

definition or_empty :: "('k, 'v) dict option \<Rightarrow> ('k, 'v) dict" where
  "or_empty d = (case d of Some x \<Rightarrow> x | None \<Rightarrow> [])"

definition ratio :: "int \<Rightarrow> int \<Rightarrow> rat" where
  "ratio c total_dois = (if total_dois > 0 then of_int c / of_int total_dois else 0)"

definition merge_values :: "(string, int) dict \<Rightarrow> (string, int) dict \<Rightarrow> (string, int) dict" where
  "merge_values values1 values2 =
     map (\<lambda>v. (v, get_int values1 v + get_int values2 v)) (union_keys values1 values2)"

definition merge_subfield :: "int \<Rightarrow> subfield_stats option \<Rightarrow> subfield_stats option \<Rightarrow> subfield_stats" where
  "merge_subfield total_dois subfield_stats1 subfield_stats2 =
     (let subfield_count = sf_get_count subfield_stats1 + sf_get_count subfield_stats2
      in \<lparr>sf_count = subfield_count,
          sf_instances = sf_get_instances subfield_stats1 + sf_get_instances subfield_stats2,
          sf_missing = total_dois - subfield_count,
          sf_completeness = ratio subfield_count total_dois,
          sf_values =
            (if sf_get_values subfield_stats1 \<noteq> None \<or> sf_get_values subfield_stats2 \<noteq> None
             then Some (merge_values (or_empty (sf_get_values subfield_stats1))
                                     (or_empty (sf_get_values subfield_stats2)))
             else None)\<rparr>)"

definition merge_subfields ::
  "int \<Rightarrow> (string, subfield_stats) dict \<Rightarrow> (string, subfield_stats) dict \<Rightarrow> (string, subfield_stats) dict" where
  "merge_subfields total_dois subfields1 subfields2 =
     map (\<lambda>subfield. (subfield, merge_subfield total_dois (map_of subfields1 subfield)
                                                 (map_of subfields2 subfield)))
         (union_keys subfields1 subfields2)"

definition merge_field :: "int \<Rightarrow> field_stats option \<Rightarrow> field_stats option \<Rightarrow> field_stats" where
  "merge_field total_dois field_stats1 field_stats2 =
     (let c = fs_get_count field_stats1 + fs_get_count field_stats2
      in \<lparr>fs_count = c,
          fs_instances = fs_get_instances field_stats1 + fs_get_instances field_stats2,
          fs_fieldStatus = fs_get_fieldStatus field_stats1 field_stats2,
          fs_completeness = ratio c total_dois,
          fs_missing = total_dois - c,
          fs_subfields =
            (if fs_get_subfields field_stats1 \<noteq> None \<or> fs_get_subfields field_stats2 \<noteq> None
             then Some (merge_subfields total_dois (or_empty (fs_get_subfields field_stats1))
                                                   (or_empty (fs_get_subfields field_stats2)))
             else None)\<rparr>)"

text \<open>The denominator of \<open>merge_fields\<close>: the largest \<open>count + missing\<close> of both sides
  over all field names.\<close>

definition merged_total :: "(string, field_stats) dict \<Rightarrow> (string, field_stats) dict \<Rightarrow> int" where
  "merged_total fields1 fields2 =
     Max (set (map (\<lambda>field.
                     fs_get_count (map_of fields1 field) + fs_get_missing (map_of fields1 field) +
                     fs_get_count (map_of fields2 field) + fs_get_missing (map_of fields2 field))
                   (union_keys fields1 fields2)))"

definition merge_fields :: "(string, field_stats) dict \<Rightarrow> (string, field_stats) dict \<Rightarrow> (string, field_stats) dict" where
  "merge_fields fields1 fields2 =
     (if fields1 = [] then fields2
      else if fields2 = [] then fields1
      else map (\<lambda>field. (field, merge_field (merged_total fields1 fields2)
                                             (map_of fields1 field) (map_of fields2 field)))
               (union_keys fields1 fields2))"

definition st_get_count :: "stats_tree option \<Rightarrow> int" where
  "st_get_count t = (case t of Some x \<Rightarrow> st_count x | None \<Rightarrow> 0)"

definition st_get_fields :: "stats_tree option \<Rightarrow> (string, field_stats) dict" where
  "st_get_fields t = (case t of Some x \<Rightarrow> st_fields x | None \<Rightarrow> [])"

definition merge_type_stats :: "stats_tree option \<Rightarrow> stats_tree option \<Rightarrow> stats_tree" where
  "merge_type_stats type_stats1 type_stats2 =
     (let total_dois = st_get_count type_stats1 + st_get_count type_stats2;
          flds = merge_fields (st_get_fields type_stats1) (st_get_fields type_stats2)
      in \<lparr>st_count = total_dois, st_fields = flds,
          st_categories = calculate_category_metrics flds total_dois\<rparr>)"

text \<open>\<open>merge_stats\<close>. Its two early returns (\<^verbatim>\<open>if not stats1\<close>, \<^verbatim>\<open>if not stats2\<close>) test for
  an empty dictionary; an \<open>entity_stats\<close> always carries its \<open>stats\<close> entry, so they are not
  taken.\<close>

definition merge_stats :: "entity_stats \<Rightarrow> entity_stats \<Rightarrow> entity_stats" where
  "merge_stats stats1 stats2 =
     \<lparr>summary = merge_type_stats (Some (summary stats1)) (Some (summary stats2)),
      byResourceType =
        map (\<lambda>resource_type.
               (resource_type, merge_type_stats (map_of (byResourceType stats1) resource_type)
                                                (map_of (byResourceType stats2) resource_type)))
            (union_keys (byResourceType stats1) (byResourceType stats2))\<rparr>"

section \<open>Pruning and rounding\<close>

definition round_half_even :: "rat \<Rightarrow> int" where
  "round_half_even x =
     (let f = \<lfloor>x\<rfloor>; d = x - of_int f
      in if d < 1 / 2 then f else if 1 / 2 < d then f + 1 else if even f then f else f + 1)"

text \<open>The stored ratio is the double that Python's true division of two integers gives:
  the binary64 value nearest to the exact quotient, ties to the even significand.
  \<open>to_double\<close> computes that value from the exact quotient: \<open>floor_log2\<close> is the binary
  exponent of a positive rational, the significand has 53 bits, and below
  \<open>pow2 (- 1022)\<close> the spacing stays \<open>pow2 (- 1074)\<close>. (A quotient of \<open>pow2 1024\<close> or more, for
  which the division raises \<open>OverflowError\<close>, needs a counter of more than 300 digits and is
  not modelled.)\<close>

definition pow2 :: "int \<Rightarrow> rat" where
  "pow2 e = (if 0 \<le> e then 2 ^ nat e else 1 / 2 ^ nat (- e))"

definition floor_log2 :: "rat \<Rightarrow> int" where
  "floor_log2 q =
     (let k = bitlen (fst (quotient_of q)) - bitlen (snd (quotient_of q))
      in if pow2 k \<le> q then k else k - 1)"

definition to_double :: "rat \<Rightarrow> rat" where
  "to_double q =
     (if q = 0 then 0
      else let e = max (floor_log2 \<bar>q\<bar> - 52) (- 1074)
           in sgn q * of_int (round_half_even (\<bar>q\<bar> / pow2 e)) * pow2 e)"

text \<open>\<^verbatim>\<open>round(value, 4)\<close> on the stored double: Python rounds the exact binary value of
  the double to four decimal places, ties to the even digit; the result is written to the
  output as that decimal.\<close>

definition round4 :: "rat \<Rightarrow> rat" where
  "round4 x = of_int (round_half_even (to_double x * 10000)) / 10000"

definition clean_values :: "(string, int) dict \<Rightarrow> (string, int) dict" where
  "clean_values vs = filter (\<lambda>(v, c). c > 0) vs"

definition clean_subfield :: "subfield_stats \<Rightarrow> subfield_stats" where
  "clean_subfield s = s\<lparr>sf_values := map_option clean_values (sf_values s)\<rparr>"

definition clean_field :: "field_stats \<Rightarrow> field_stats" where
  "clean_field f =
     f\<lparr>fs_subfields := map_option (map (\<lambda>(subfield, s). (subfield, clean_subfield s)))
                                  (fs_subfields f)\<rparr>"

definition clean_subfields :: "(string, field_stats) dict \<Rightarrow> (string, field_stats) dict" where
  "clean_subfields fields_dict = map (\<lambda>(field_name, f). (field_name, clean_field f)) fields_dict"

definition round_subfield :: "subfield_stats \<Rightarrow> subfield_stats" where
  "round_subfield s = s\<lparr>sf_completeness := round4 (sf_completeness s)\<rparr>"

definition round_field :: "field_stats \<Rightarrow> field_stats" where
  "round_field f =
     f\<lparr>fs_completeness := round4 (fs_completeness f),
       fs_subfields := map_option (map (\<lambda>(subfield, s). (subfield, round_subfield s)))
                                  (fs_subfields f)\<rparr>"

definition round_categories :: "category_metrics \<Rightarrow> category_metrics" where
  "round_categories c =
     \<lparr>mandatory = round4 (mandatory c), recommended = round4 (recommended c),
      optional = round4 (optional c)\<rparr>"

definition round_tree :: "stats_tree \<Rightarrow> stats_tree" where
  "round_tree t =
     t\<lparr>st_fields := map (\<lambda>(field_name, f). (field_name, round_field f)) (st_fields t),
       st_categories := round_categories (st_categories t)\<rparr>"

definition round_completeness_values :: "entity_stats \<Rightarrow> entity_stats" where
  "round_completeness_values e =
     \<lparr>summary = round_tree (summary e),
      byResourceType = map (\<lambda>(rt, t). (rt, round_tree t)) (byResourceType e)\<rparr>"

definition clean_tree :: "stats_tree \<Rightarrow> stats_tree" where
  "clean_tree t = t\<lparr>st_fields := clean_subfields (st_fields t)\<rparr>"

definition remove_zero_count_resource_types_and_clean :: "entity_stats \<Rightarrow> entity_stats" where
  "remove_zero_count_resource_types_and_clean target_stats =
     round_completeness_values
       \<lparr>summary = clean_tree (summary target_stats),
        byResourceType =
          map (\<lambda>(rt, rt_data). (rt, clean_tree rt_data))
              (filter (\<lambda>(rt, rt_data). st_count rt_data > 0) (byResourceType target_stats))\<rparr>"

section \<open>Aggregation driver: the final phase of \<open>run\<close>\<close>

text \<open>The manager's two collections, keyed by identifier. Of an entry only its statistics
  matter here; its display attributes and relationships are not modelled.\<close>

record manager =
  providers :: "(string, entity_stats) dict"
  clients :: "(string, entity_stats) dict"

definition filter_active_only :: "manager \<Rightarrow> manager" where
  "filter_active_only m =
     \<lparr>providers = filter (\<lambda>(pid, p). st_count (summary p) > 0) (providers m),
      clients = filter (\<lambda>(cid, c). st_count (summary c) > 0) (clients m)\<rparr>"

definition aggregate_all :: "(string, entity_stats) dict \<Rightarrow> entity_stats" where
  "aggregate_all entries = foldl merge_stats create_empty_stats (map snd entries)"

definition create_aggregate_entries :: "manager \<Rightarrow> manager" where
  "create_aggregate_entries m =
     \<lparr>providers = dict_set (providers m) ''aggregate'' (aggregate_all (providers m)),
      clients = dict_set (clients m) ''aggregate.all'' (aggregate_all (clients m))\<rparr>"

definition clean_resource_types :: "manager \<Rightarrow> manager" where
  "clean_resource_types m =
     \<lparr>providers = map (\<lambda>(pid, p). (pid, remove_zero_count_resource_types_and_clean p)) (providers m),
      clients = map (\<lambda>(cid, c). (cid, remove_zero_count_resource_types_and_clean c)) (clients m)\<rparr>"

text \<open>Lines 1320--1327 of \<open>run\<close>: filter, then synthesise the aggregates, then clean.\<close>

definition finalize :: "manager \<Rightarrow> manager" where
  "finalize m = clean_resource_types (create_aggregate_entries (filter_active_only m))"

section \<open>Record updater\<close>

text \<open>A decoded JSON value. (JSON numbers are modelled by the integers.)\<close>

datatype json = JNull | JBool bool | JInt int | JStr string | JList "json list"
  | JDict "(string \<times> json) list"

text \<open>Python's truth value of a decoded JSON value.\<close>

fun truthy :: "json \<Rightarrow> bool" where
  "truthy JNull = False"
| "truthy (JBool b) = b"
| "truthy (JInt n) = (n \<noteq> 0)"
| "truthy (JStr s) = (s \<noteq> [])"
| "truthy (JList l) = (l \<noteq> [])"
| "truthy (JDict d) = (d \<noteq> [])"

datatype exn = AttributeError | KeyError | TypeError

text \<open>The updater mutates its tree in place and may raise part-way: an outcome carries
  the state reached, whether the call returned (\<open>Done\<close>) or raised (\<open>Raised\<close>).\<close>

datatype 's outcome = Done 's | Raised exn 's

fun state_of :: "'s outcome \<Rightarrow> 's" where
  "state_of (Done s) = s"
| "state_of (Raised e s) = s"

fun returned :: "'s outcome \<Rightarrow> bool" where
  "returned (Done s) = True"
| "returned (Raised e s) = False"

definition and_then :: "'s outcome \<Rightarrow> ('s \<Rightarrow> 's outcome) \<Rightarrow> 's outcome" where
  "and_then r f = (case r of Done s \<Rightarrow> f s | Raised e s \<Rightarrow> Raised e s)"

text \<open>A \<^verbatim>\<open>for\<close> loop whose body may raise.\<close>

fun for_each :: "('a \<Rightarrow> 's \<Rightarrow> 's outcome) \<Rightarrow> 'a list \<Rightarrow> 's \<Rightarrow> 's outcome" where
  "for_each body [] s = Done s"
| "for_each body (x # xs) s =
     (case body x s of Done s' \<Rightarrow> for_each body xs s' | Raised e s' \<Rightarrow> Raised e s')"

text \<open>\<^verbatim>\<open>item.get(key, default)\<close>: only a dictionary has \<open>get\<close>.\<close>

definition jget :: "json \<Rightarrow> string \<Rightarrow> json \<Rightarrow> exn + json" where
  "jget item key dflt =
     (case item of
        JDict d \<Rightarrow> Inr (case map_of d key of Some v \<Rightarrow> v | None \<Rightarrow> dflt)
      | _ \<Rightarrow> Inl AttributeError)"

text \<open>\<^verbatim>\<open>value in expected_values\<close>: a list or a dictionary is unhashable; a flag is not
  a container.\<close>

definition cfg_contains :: "cfg \<Rightarrow> json \<Rightarrow> exn + bool" where
  "cfg_contains expected_values v =
     (case expected_values of
        CBool b \<Rightarrow> Inl TypeError
      | _ \<Rightarrow> (case v of
                JStr s \<Rightarrow> Inr (s \<in> set (cfg_elements expected_values))
              | JList l \<Rightarrow> Inl TypeError
              | JDict d \<Rightarrow> Inl TypeError
              | _ \<Rightarrow> Inr False))"

text \<open>The state of one call of \<open>update_subfield_stats\<close> on a list: the field's statistics
  and \<open>seen_subfields\<close>.\<close>

type_synonym ust = "field_stats \<times> string set"

text \<open>\<^verbatim>\<open>field_stats['subfields'][subfield][...] = ...\<close>: a \<open>KeyError\<close> when the field has no
  \<open>subfields\<close> entry or no such subfield.\<close>

definition modify_subfield :: "string \<Rightarrow> (subfield_stats \<Rightarrow> subfield_stats outcome) \<Rightarrow> field_stats \<Rightarrow> field_stats outcome" where
  "modify_subfield subfield g fs =
     (case fs_subfields fs of
        None \<Rightarrow> Raised KeyError fs
      | Some subs \<Rightarrow>
          (case map_of subs subfield of
             None \<Rightarrow> Raised KeyError fs
           | Some s \<Rightarrow>
               (case g s of
                  Done s' \<Rightarrow> Done (fs\<lparr>fs_subfields := Some (dict_set subs subfield s')\<rparr>)
                | Raised e s' \<Rightarrow> Raised e (fs\<lparr>fs_subfields := Some (dict_set subs subfield s')\<rparr>))))"

definition inc_count :: "subfield_stats \<Rightarrow> subfield_stats outcome" where
  "inc_count s = Done (s\<lparr>sf_count := sf_count s + 1\<rparr>)"

definition add_instances :: "int \<Rightarrow> subfield_stats \<Rightarrow> subfield_stats outcome" where
  "add_instances n s = Done (s\<lparr>sf_instances := sf_instances s + n\<rparr>)"

text \<open>\<^verbatim>\<open>...['values'][value] += 1\<close>: \<open>KeyError\<close> without a \<open>values\<close> entry or for a value that
  is not a key, \<open>TypeError\<close> for an unhashable value.\<close>

definition inc_value :: "json \<Rightarrow> subfield_stats \<Rightarrow> subfield_stats outcome" where
  "inc_value v s =
     (case sf_values s of
        None \<Rightarrow> Raised KeyError s
      | Some vs \<Rightarrow>
          (case v of
             JStr k \<Rightarrow> (case map_of vs k of
                          Some c \<Rightarrow> Done (s\<lparr>sf_values := Some (dict_set vs k (c + 1))\<rparr>)
                        | None \<Rightarrow> Raised KeyError s)
           | JList l \<Rightarrow> Raised TypeError s
           | JDict d \<Rightarrow> Raised TypeError s
           | _ \<Rightarrow> Raised KeyError s))"

definition recompute :: "int \<Rightarrow> subfield_stats \<Rightarrow> subfield_stats outcome" where
  "recompute total_dois s =
     Done (s\<lparr>sf_missing := total_dois - sf_count s, sf_completeness := ratio (sf_count s) total_dois\<rparr>)"

definition on_stats :: "(field_stats \<Rightarrow> field_stats outcome) \<Rightarrow> ust \<Rightarrow> ust outcome" where
  "on_stats f st =
     (case f (fst st) of Done fs \<Rightarrow> Done (fs, snd st) | Raised e fs \<Rightarrow> Raised e (fs, snd st))"

text \<open>The pattern shared by every branch:
  \<^verbatim>\<open>if subfield not in seen_subfields: ...['count'] += 1; seen_subfields.add(subfield)\<close>
  followed by \<^verbatim>\<open>...['instances'] += n\<close>.\<close>

definition count_subfield :: "string \<Rightarrow> int \<Rightarrow> ust \<Rightarrow> ust outcome" where
  "count_subfield subfield n st =
     and_then
       (if subfield \<notin> snd st
        then and_then (on_stats (modify_subfield subfield inc_count) st)
                      (\<lambda>st'. Done (fst st', insert subfield (snd st')))
        else Done st)
       (on_stats (modify_subfield subfield (add_instances n)))"

text \<open>Body of \<^verbatim>\<open>for identifier in identifiers\<close> (lines 429--437).\<close>

definition identifier_step :: "(string, cfg) dict \<Rightarrow> json \<Rightarrow> ust \<Rightarrow> ust outcome" where
  "identifier_step field_config identifier st =
     (case jget identifier ''nameIdentifierScheme'' JNull of
        Inl e \<Rightarrow> Raised e st
      | Inr scheme \<Rightarrow>
          if \<not> truthy scheme then Done st
          else (case map_of field_config ''nameIdentifierScheme'' of
                  None \<Rightarrow> Raised KeyError st
                | Some expected \<Rightarrow>
                    (case cfg_contains expected scheme of
                       Inl e \<Rightarrow> Raised e st
                     | Inr False \<Rightarrow> Done st
                     | Inr True \<Rightarrow>
                         and_then (count_subfield ''nameIdentifierScheme'' 1 st)
                           (on_stats (modify_subfield ''nameIdentifierScheme'' (inc_value scheme))))))"

text \<open>Lines 461--469: the scheme of an affiliation that has an identifier.\<close>

definition affiliation_scheme :: "(string, cfg) dict \<Rightarrow> json \<Rightarrow> ust \<Rightarrow> ust outcome" where
  "affiliation_scheme field_config affiliation st =
     (case jget affiliation ''affiliationIdentifierScheme'' JNull of
        Inl e \<Rightarrow> Raised e st
      | Inr scheme \<Rightarrow>
          if \<not> truthy scheme then Done st
          else (case map_of field_config ''affiliationIdentifierScheme'' of
                  None \<Rightarrow> Raised KeyError st
                | Some expected \<Rightarrow>
                    (case cfg_contains expected scheme of
                       Inl e \<Rightarrow> Raised e st
                     | Inr False \<Rightarrow> Done st
                     | Inr True \<Rightarrow>
                         and_then (count_subfield ''affiliationIdentifierScheme'' 1 st)
                           (on_stats (modify_subfield ''affiliationIdentifierScheme''
                                        (inc_value scheme))))))"

text \<open>Body of \<^verbatim>\<open>for affiliation in affiliations\<close> (lines 450--469).\<close>

definition affiliation_step :: "(string, cfg) dict \<Rightarrow> json \<Rightarrow> ust \<Rightarrow> ust outcome" where
  "affiliation_step field_config affiliation st =
     (case affiliation of
        JDict d \<Rightarrow>
          (case jget affiliation ''affiliationIdentifier'' JNull of
             Inl e \<Rightarrow> Raised e st
           | Inr ident \<Rightarrow>
               if \<not> truthy ident then Done st
               else and_then (count_subfield ''affiliationIdentifier'' 1 st)
                      (affiliation_scheme field_config affiliation))
      | _ \<Rightarrow> Done st)"

text \<open>\<^verbatim>\<open>x if isinstance(x, list) else [x]\<close>.\<close>

definition as_list :: "json \<Rightarrow> json list" where
  "as_list v = (case v of JList l \<Rightarrow> l | _ \<Rightarrow> [v])"

text \<open>Lines 404--407: the value counter of an enumerated subfield of a funding reference,
  an unrecognized value going to \<open>Other\<close>.\<close>

definition funding_value :: "string \<Rightarrow> cfg \<Rightarrow> json \<Rightarrow> ust \<Rightarrow> ust outcome" where
  "funding_value subfield expected_values v st =
     (case expected_values of
        CSet vs \<Rightarrow>
          (case cfg_contains expected_values v of
             Inl e \<Rightarrow> Raised e st
           | Inr b \<Rightarrow>
               on_stats (modify_subfield subfield (inc_value (if b then v else JStr ''Other''))) st)
      | _ \<Rightarrow> Done st)"

text \<open>The branches of the \<open>if\<close>/\<open>elif\<close> chain in the inner loop of the list branch
  (lines 397--478). First branch, \<^verbatim>\<open>field_name == 'fundingReferences'\<close> (lines 397--407).\<close>

definition funding_branch :: "string \<Rightarrow> cfg \<Rightarrow> json \<Rightarrow> ust \<Rightarrow> ust outcome" where
  "funding_branch subfield expected_values item st =
     (case jget item subfield JNull of
        Inl e \<Rightarrow> Raised e st
      | Inr v \<Rightarrow>
          if \<not> truthy v then Done st
          else and_then (count_subfield subfield 1 st) (funding_value subfield expected_values v))"

text \<open>\<^verbatim>\<open>elif subfield == 'nameType'\<close> (lines 409--416).\<close>

definition nameType_branch :: "json \<Rightarrow> ust \<Rightarrow> ust outcome" where
  "nameType_branch item st =
     (case jget item ''nameType'' (JStr []) of
        Inl e \<Rightarrow> Raised e st
      | Inr v \<Rightarrow>
          if \<not> truthy v then Done st
          else and_then (count_subfield ''nameType'' 1 st)
                 (on_stats (modify_subfield ''nameType'' (inc_value v))))"

text \<open>\<^verbatim>\<open>elif subfield == 'nameIdentifier'\<close> (lines 418--437).\<close>

definition nameIdentifier_branch :: "(string, cfg) dict \<Rightarrow> json \<Rightarrow> ust \<Rightarrow> ust outcome" where
  "nameIdentifier_branch field_config item st =
     (case jget item ''nameIdentifiers'' (JList []) of
        Inl e \<Rightarrow> Raised e st
      | Inr identifiers \<Rightarrow>
          if \<not> truthy identifiers then Done st
          else and_then (count_subfield ''nameIdentifier'' (int (length (as_list identifiers))) st)
                 (for_each (identifier_step field_config) (as_list identifiers)))"

text \<open>\<^verbatim>\<open>elif subfield == 'affiliation'\<close> (lines 439--469).\<close>

definition affiliation_branch :: "(string, cfg) dict \<Rightarrow> json \<Rightarrow> ust \<Rightarrow> ust outcome" where
  "affiliation_branch field_config item st =
     (case jget item ''affiliation'' (JList []) of
        Inl e \<Rightarrow> Raised e st
      | Inr affiliations \<Rightarrow>
          if \<not> truthy affiliations then Done st
          else and_then (count_subfield ''affiliation'' (int (length (as_list affiliations))) st)
                 (for_each (affiliation_step field_config) (as_list affiliations)))"

text \<open>\<^verbatim>\<open>elif subfield in ['contributorType', 'relationType', 'relatedIdentifierType',
  'resourceTypeGeneral']\<close> (lines 471--478).\<close>

definition enumerated_branch :: "string \<Rightarrow> cfg \<Rightarrow> json \<Rightarrow> ust \<Rightarrow> ust outcome" where
  "enumerated_branch subfield expected_values item st =
     (case jget item subfield JNull of
        Inl e \<Rightarrow> Raised e st
      | Inr v \<Rightarrow>
          if \<not> truthy v then Done st
          else (case cfg_contains expected_values v of
                  Inl e \<Rightarrow> Raised e st
                | Inr False \<Rightarrow> Done st
                | Inr True \<Rightarrow>
                    and_then (count_subfield subfield 1 st)
                      (on_stats (modify_subfield subfield (inc_value v)))))"

text \<open>Body of the inner loop \<^verbatim>\<open>for subfield, expected_values in field_config.items()\<close>
  of the list branch (lines 393--478), the chain in source order.\<close>

definition subfield_step :: "string \<Rightarrow> (string, cfg) dict \<Rightarrow> json \<Rightarrow> string \<times> cfg \<Rightarrow> ust \<Rightarrow> ust outcome" where
  "subfield_step field_name field_config item entry st =
     (let subfield = fst entry; expected_values = snd entry in
      if subfield = ''multiple'' then Done st
      else if field_name = ''fundingReferences'' then funding_branch subfield expected_values item st
      else if subfield = ''nameType'' then nameType_branch item st
      else if subfield = ''nameIdentifier'' then nameIdentifier_branch field_config item st
      else if subfield = ''affiliation'' then affiliation_branch field_config item st
      else if subfield \<in> {''contributorType'', ''relationType'', ''relatedIdentifierType'',
                          ''resourceTypeGeneral''}
      then enumerated_branch subfield expected_values item st
      else Done st)"

definition item_step :: "string \<Rightarrow> (string, cfg) dict \<Rightarrow> json \<Rightarrow> ust \<Rightarrow> ust outcome" where
  "item_step field_name field_config item st =
     for_each (subfield_step field_name field_config item) field_config st"

text \<open>Lines 480--486: after the items, every configured subfield that the statistics
  carry gets \<open>missing\<close> and \<open>completeness\<close> recomputed.\<close>

definition recompute_step :: "int \<Rightarrow> string \<Rightarrow> field_stats \<Rightarrow> field_stats outcome" where
  "recompute_step total_dois subfield fs =
     (if subfield = ''multiple'' then Done fs
      else (case fs_subfields fs of
              None \<Rightarrow> Raised KeyError fs
            | Some subs \<Rightarrow>
                if subfield \<in> set (map fst subs)
                then modify_subfield subfield (recompute total_dois) fs
                else Done fs))"

text \<open>Lines 503--510: the subfield of a single composite is counted, its value counter
  incremented when the subfield has a \<open>values\<close> entry, its ratios recomputed.\<close>

definition single_count :: "int \<Rightarrow> string \<Rightarrow> json \<Rightarrow> field_stats \<Rightarrow> field_stats outcome" where
  "single_count total_dois subfield v fs =
     and_then (modify_subfield subfield inc_count fs)
       (\<lambda>fs1. and_then (modify_subfield subfield (add_instances 1) fs1)
       (\<lambda>fs2. and_then
          (case map_of (or_empty (fs_subfields fs2)) subfield of
             Some s \<Rightarrow> if sf_values s \<noteq> None
                       then modify_subfield subfield (inc_value v) fs2
                       else Done fs2
           | None \<Rightarrow> Raised KeyError fs2)
          (modify_subfield subfield (recompute total_dois))))"

text \<open>\<^verbatim>\<open>isinstance(expected_values, dict) or value in expected_values\<close>.\<close>

definition single_accepts :: "cfg \<Rightarrow> json \<Rightarrow> exn + bool" where
  "single_accepts expected_values v =
     (case expected_values of CDict d \<Rightarrow> Inr True | _ \<Rightarrow> cfg_contains expected_values v)"

text \<open>Body of the loop of the non-list branch (lines 494--510).\<close>

definition single_step :: "int \<Rightarrow> json \<Rightarrow> string \<times> cfg \<Rightarrow> field_stats \<Rightarrow> field_stats outcome" where
  "single_step total_dois field_value entry fs =
     (let subfield = fst entry; expected_values = snd entry in
      if subfield = ''multiple'' then Done fs
      else (case jget field_value subfield JNull of
              Inl e \<Rightarrow> Raised e fs
            | Inr v \<Rightarrow>
                if \<not> truthy v then Done fs
                else (case single_accepts expected_values v of
                        Inl e \<Rightarrow> Raised e fs
                      | Inr False \<Rightarrow> Done fs
                      | Inr True \<Rightarrow>
                          (case fs_subfields fs of
                             None \<Rightarrow> Raised KeyError fs
                           | Some subs \<Rightarrow>
                               if subfield \<notin> set (map fst subs) then Done fs
                               else single_count total_dois subfield v fs))))"

text \<open>\<open>update_subfield_stats\<close>, on the statistics of the field it navigates to; \<open>total_dois\<close>
  is the record count of the tree that holds them.\<close>

definition update_subfield_stats :: "json \<Rightarrow> string \<Rightarrow> field_stats \<Rightarrow> int \<Rightarrow> field_stats outcome" where
  "update_subfield_stats field_value field_name field_stats total_dois =
     (if \<not> truthy field_value then Done field_stats
      else (case map_of SUBFIELD_STATS field_name of
              None \<Rightarrow> Done field_stats
            | Some field_config \<Rightarrow>
                (case field_value of
                   JList items \<Rightarrow>
                     (case for_each (item_step field_name field_config) items
                             (field_stats\<lparr>fs_instances := fs_instances field_stats + int (length items)\<rparr>, {}) of
                        Raised e st \<Rightarrow> Raised e (fst st)
                      | Done st \<Rightarrow>
                          for_each (recompute_step total_dois) (map fst field_config) (fst st))
                 | _ \<Rightarrow>
                     if field_name = ''fundingReferences'' then Done field_stats
                     else for_each (single_step total_dois field_value) field_config
                            (field_stats\<lparr>fs_instances := fs_instances field_stats + 1\<rparr>))))"

text \<open>The helper \<open>update_field_stats\<close> of \<open>update_stats_single_record\<close>.\<close>

definition update_field_stats :: "json \<Rightarrow> field_stats \<Rightarrow> string \<Rightarrow> field_stats" where
  "update_field_stats field_value field_stats field_name =
     (if \<not> truthy field_value then field_stats
      else field_stats
             \<lparr>fs_count := fs_count field_stats + 1,
              fs_instances :=
                (if field_name \<in> set (map fst SUBFIELD_STATS) then fs_instances field_stats
                 else fs_instances field_stats +
                        (case field_value of JList l \<Rightarrow> int (length l) | _ \<Rightarrow> 1))\<rparr>)"

text \<open>\<^verbatim>\<open>record.get(field_name)\<close> on the normalised record.\<close>

definition record_get :: "(string, json) dict \<Rightarrow> string \<Rightarrow> json" where
  "record_get rec field_name = (case map_of rec field_name of Some v \<Rightarrow> v | None \<Rightarrow> JNull)"

text \<open>Body of the loop over \<open>FIELD_STATUS\<close> (lines 539--551, and the same body at 571--583
  for a resource type).\<close>

definition field_step :: "(string, json) dict \<Rightarrow> int \<Rightarrow> string \<Rightarrow> stats_tree \<Rightarrow> stats_tree outcome" where
  "field_step rec total_dois field_name t =
     (case map_of (st_fields t) field_name of
        None \<Rightarrow> Raised KeyError t
      | Some field_stats \<Rightarrow>
          (let field_value = record_get rec field_name;
               fs1 = update_field_stats field_value field_stats field_name
           in case (if field_name \<in> set (map fst SUBFIELD_STATS) \<and> truthy field_value
                    then update_subfield_stats field_value field_name fs1 total_dois
                    else Done fs1) of
                Raised e fs2 \<Rightarrow> Raised e (t\<lparr>st_fields := dict_set (st_fields t) field_name fs2\<rparr>)
              | Done fs2 \<Rightarrow>
                  Done (t\<lparr>st_fields := dict_set (st_fields t) field_name
                            (fs2\<lparr>fs_missing := total_dois - fs_count fs2,
                                 fs_completeness := ratio (fs_count fs2) total_dois\<rparr>)\<rparr>)))"

text \<open>One tree's share of \<open>update_stats_single_record\<close>: count the record, run the field
  loop, recompute the categories.\<close>

definition update_tree :: "(string, json) dict \<Rightarrow> stats_tree \<Rightarrow> stats_tree outcome" where
  "update_tree rec t =
     (let total_dois = st_count t + 1
      in case for_each (field_step rec total_dois) (map fst FIELD_STATUS)
                (t\<lparr>st_count := total_dois\<rparr>) of
           Raised e t' \<Rightarrow> Raised e t'
         | Done t' \<Rightarrow>
             Done (t'\<lparr>st_categories := calculate_category_metrics (st_fields t') total_dois\<rparr>))"

text \<open>Lines 558--564: the resource type of the record.\<close>

definition resource_type_of :: "(string, json) dict \<Rightarrow> json" where
  "resource_type_of rec =
     (let v = record_get rec ''resourceType'' in
      if \<not> truthy v then JNull
      else (case v of
              JDict d \<Rightarrow> (case map_of d ''resourceTypeGeneral'' of Some g \<Rightarrow> g | None \<Rightarrow> JNull)
            | JStr s \<Rightarrow> JStr s
            | _ \<Rightarrow> JNull))"

definition update_stats_single_record :: "entity_stats \<Rightarrow> (string, json) dict \<Rightarrow> entity_stats outcome" where
  "update_stats_single_record stats_obj rec =
     (case update_tree rec (summary stats_obj) of
        Raised e s \<Rightarrow> Raised e (stats_obj\<lparr>summary := s\<rparr>)
      | Done s \<Rightarrow>
          (let stats1 = stats_obj\<lparr>summary := s\<rparr>; resource_type = resource_type_of rec
           in if \<not> truthy resource_type then Done stats1
              else (case resource_type of
                      JStr k \<Rightarrow>
                        (case map_of (byResourceType stats1) k of
                           None \<Rightarrow> Done stats1
                         | Some type_stats \<Rightarrow>
                             (case update_tree rec type_stats of
                                Raised e ts \<Rightarrow>
                                  Raised e (stats1\<lparr>byResourceType :=
                                                     dict_set (byResourceType stats1) k ts\<rparr>)
                              | Done ts \<Rightarrow>
                                  Done (stats1\<lparr>byResourceType :=
                                                 dict_set (byResourceType stats1) k ts\<rparr>)))
                    | JList l \<Rightarrow> Raised TypeError stats1
                    | JDict d \<Rightarrow> Raised TypeError stats1
                    | _ \<Rightarrow> Done stats1)))"

text \<open>The \<^verbatim>\<open>try\<close>/\<^verbatim>\<open>except Exception: continue\<close> around each record in \<open>process_file\<close>:
  an exception is logged and the loop goes on with the tree as the failed call left it.\<close>

definition fold_record :: "entity_stats \<Rightarrow> (string, json) dict \<Rightarrow> entity_stats" where
  "fold_record stats_obj rec = state_of (update_stats_single_record stats_obj rec)"

definition fold_records :: "(string, json) dict list \<Rightarrow> entity_stats" where
  "fold_records recs = foldl fold_record create_empty_stats recs"

section \<open>Specification-side definitions and examples\<close>

text \<open>The category formula as the specification words it: the counts of the fields of a
  status class, summed, over the record total times the number of fields of the class;
  and the mean of the stored completeness of the fields of the class.\<close>

definition class_fields :: "string \<Rightarrow> (string, field_stats) dict \<Rightarrow> field_stats list" where
  "class_fields status flds = filter (\<lambda>f. fs_fieldStatus f = Some status) (map snd flds)"

definition spec_category_completeness :: "string \<Rightarrow> (string, field_stats) dict \<Rightarrow> int \<Rightarrow> rat" where
  "spec_category_completeness status flds totalRecords =
     (let denominator = totalRecords * int (length (class_fields status flds))
      in if denominator = 0 then 0
         else of_int (sum_list (map fs_count (class_fields status flds))) / of_int denominator)"

definition spec_mean_completeness :: "string \<Rightarrow> (string, field_stats) dict \<Rightarrow> rat" where
  "spec_mean_completeness status flds =
     (if class_fields status flds = [] then 0
      else sum_list (map fs_completeness (class_fields status flds))
             / of_int (int (length (class_fields status flds))))"

definition example_fields :: "(string, field_stats) dict" where
  "example_fields =
     [(''A'', \<lparr>fs_count = 2, fs_instances = 2, fs_fieldStatus = Some ''mandatory'',
              fs_completeness = 1, fs_missing = 0, fs_subfields = None\<rparr>),
      (''B'', \<lparr>fs_count = 1, fs_instances = 1, fs_fieldStatus = Some ''mandatory'',
              fs_completeness = 1 / 2, fs_missing = 1, fs_subfields = None\<rparr>)]"

text \<open>The value counters a tree holds, in the order of the tree: for every field and
  every subfield of it that has a \<open>values\<close> dictionary, that dictionary, under the names of
  the field and the subfield. And the cleaning as the claim words it: of a \<open>values\<close>
  dictionary exactly the entries with a positive counter remain.\<close>

definition subfield_values :: "(string, subfield_stats) dict \<Rightarrow> (string \<times> (string, int) dict) list" where
  "subfield_values subs =
     concat (map (\<lambda>(subfield, s). case sf_values s of Some vs \<Rightarrow> [(subfield, vs)] | None \<Rightarrow> []) subs)"

definition field_values :: "string \<Rightarrow> field_stats \<Rightarrow> ((string \<times> string) \<times> (string, int) dict) list" where
  "field_values field_name f =
     map (\<lambda>(subfield, vs). ((field_name, subfield), vs)) (subfield_values (or_empty (fs_subfields f)))"

definition tree_values :: "stats_tree \<Rightarrow> ((string \<times> string) \<times> (string, int) dict) list" where
  "tree_values t = concat (map (\<lambda>(field_name, f). field_values field_name f) (st_fields t))"

definition spec_positive_entries :: "(string, int) dict \<Rightarrow> (string, int) dict" where
  "spec_positive_entries vs = filter (\<lambda>(v, c). 0 < c) vs"

definition spec_cleaned :: "((string \<times> string) \<times> (string, int) dict) list \<Rightarrow> ((string \<times> string) \<times> (string, int) dict) list" where
  "spec_cleaned entries = map (\<lambda>(k, vs). (k, spec_positive_entries vs)) entries"

text \<open>A small tree: two records with creators, one creator name type never seen, one
  resource type without records.\<close>

definition tiny_stats :: entity_stats where
  "tiny_stats =
     \<lparr>summary =
        \<lparr>st_count = 2,
         st_fields =
           [(''creators'',
             \<lparr>fs_count = 2, fs_instances = 2, fs_fieldStatus = Some ''mandatory'',
              fs_completeness = 1, fs_missing = 0,
              fs_subfields =
                Some [(''nameType'',
                       \<lparr>sf_count = 2, sf_instances = 2, sf_missing = 0, sf_completeness = 1,
                        sf_values = Some [(''Personal'', 2), (''Organizational'', 0)]\<rparr>)]\<rparr>)],
         st_categories = \<lparr>mandatory = 1, recommended = 0, optional = 0\<rparr>\<rparr>,
      byResourceType =
        [(''Dataset'', \<lparr>st_count = 2, st_fields = [], st_categories = zero_categories\<rparr>),
         (''Text'', \<lparr>st_count = 0, st_fields = [], st_categories = zero_categories\<rparr>)]\<rparr>"

text \<open>The providers and clients that survive \<open>filter_active_only\<close>.\<close>

definition active_providers :: "manager \<Rightarrow> (string, entity_stats) dict" where
  "active_providers m = providers (filter_active_only m)"

definition active_clients :: "manager \<Rightarrow> (string, entity_stats) dict" where
  "active_clients m = clients (filter_active_only m)"

text \<open>A registry with one provider and no record at all; and one with a provider that has
  records beside one that has none.\<close>

definition no_records :: manager where
  "no_records = \<lparr>providers = [(''cern'', create_empty_stats)], clients = []\<rparr>"

definition one_provider :: manager where
  "one_provider =
     \<lparr>providers = [(''cern'', tiny_stats), (''idle'', create_empty_stats)], clients = []\<rparr>"

section \<open>Shapes\<close>

text \<open>The shape of a statistics dictionary: its keys at every level and the status of each
  field, without the counters.\<close>

definition sf_shape :: "subfield_stats \<Rightarrow> string list option" where
  "sf_shape s = map_option (map fst) (sf_values s)"

definition subs_shape :: "(string, subfield_stats) dict \<Rightarrow> (string \<times> string list option) list" where
  "subs_shape subs = map (\<lambda>(n, s). (n, sf_shape s)) subs"

definition fs_shape :: "field_stats \<Rightarrow> string option \<times> (string \<times> string list option) list option" where
  "fs_shape f = (fs_fieldStatus f, map_option subs_shape (fs_subfields f))"

text \<open>What \<open>update_subfield_stats\<close> leaves alone in the statistics of a field.\<close>

definition fs_core :: "field_stats \<Rightarrow> int \<times> int \<times> rat \<times> string option \<times> (string \<times> string list option) list option" where
  "fs_core f = (fs_count f, fs_missing f, fs_completeness f, fs_shape f)"

definition ucore :: "ust \<Rightarrow> int \<times> int \<times> rat \<times> string option \<times> (string \<times> string list option) list option" where
  "ucore st = fs_core (fst st)"

definition fields_shape ::
  "(string, field_stats) dict \<Rightarrow> (string \<times> string option \<times> (string \<times> string list option) list option) list" where
  "fields_shape flds = map (\<lambda>(n, f). (n, fs_shape f)) flds"

text \<open>The field names, in the order \<open>FIELD_STATUS\<close> lists them.\<close>

definition field_names :: "string list" where
  "field_names = map fst FIELD_STATUS"

definition schema_shape ::
  "(string \<times> string option \<times> (string \<times> string list option) list option) list" where
  "schema_shape = fields_shape (st_fields create_empty_tree)"

text \<open>A tree of the schema whose denominators are in order: it has the fields, statuses,
  subfields and value keys of the factory's tree; no field has \<open>count + missing\<close> above the
  record count; and the first field, \<open>identifier\<close>, has it equal to the record count.\<close>

definition tree_ok :: "stats_tree \<Rightarrow> bool" where
  "tree_ok t =
     (fields_shape (st_fields t) = schema_shape \<and>
      list_all (\<lambda>(n, f). fs_count f + fs_missing f \<le> st_count t) (st_fields t) \<and>
      (case map_of (st_fields t) ''identifier'' of
         Some f \<Rightarrow> fs_count f + fs_missing f = st_count t
       | None \<Rightarrow> False))"

definition entity_ok :: "entity_stats \<Rightarrow> bool" where
  "entity_ok e =
     (tree_ok (summary e) \<and>
      map fst (byResourceType e) = resourceTypeGeneral_values \<and>
      list_all (\<lambda>(rt, t). tree_ok t) (byResourceType e))"

text \<open>The statistics the program builds: the factory's empty statistics, a record folded
  into built statistics (whether the call returned or raised), and the merge of two built
  statistics.\<close>

inductive built :: "entity_stats \<Rightarrow> bool" where
  built_empty: "built create_empty_stats"
| built_record: "built t \<Longrightarrow> built (fold_record t r)"
| built_merge: "built a \<Longrightarrow> built b \<Longrightarrow> built (merge_stats a b)"

text \<open>The keys of the subfields of every field are distinct.\<close>

definition subs_distinct :: "field_stats \<Rightarrow> bool" where
  "subs_distinct f = (case fs_subfields f of Some subs \<Rightarrow> distinct (map fst subs) | None \<Rightarrow> True)"

text \<open>The state of the field loop: the fields still to come have \<open>count + missing\<close> at most
  the previous record count, the others at most the new one, and \<open>identifier\<close> has been
  processed.\<close>

definition loop_inv :: "int \<Rightarrow> string list \<Rightarrow> stats_tree \<Rightarrow> bool" where
  "loop_inv tot names t =
     (st_count t = tot \<and> fields_shape (st_fields t) = schema_shape \<and>
      (\<forall>k f. map_of (st_fields t) k = Some f \<longrightarrow>
         fs_count f + fs_missing f \<le> (if k \<in> set names then tot - 1 else tot)) \<and>
      (\<exists>f. map_of (st_fields t) ''identifier'' = Some f \<and> fs_count f + fs_missing f = tot) \<and>
      ''identifier'' \<notin> set names \<and> distinct names \<and> set names \<subseteq> set field_names)"

text \<open>The merge of two field statistics against a record count, as the specification words
  it: counts and instances summed, \<open>missing\<close> and \<open>completeness\<close> recomputed against the
  record count, the status of the sides, and for every subfield of both sides the counts and
  instances summed and every value counter summed.\<close>

definition spec_merged_subfield :: "subfield_stats \<Rightarrow> subfield_stats \<Rightarrow> subfield_stats \<Rightarrow> bool" where
  "spec_merged_subfield sa sb sm =
     (sf_count sm = sf_count sa + sf_count sb \<and>
      sf_instances sm = sf_instances sa + sf_instances sb \<and>
      (\<forall>v. get_int (or_empty (sf_values sm)) v =
             get_int (or_empty (sf_values sa)) v + get_int (or_empty (sf_values sb)) v))"

definition spec_merged_field :: "int \<Rightarrow> field_stats \<Rightarrow> field_stats \<Rightarrow> field_stats \<Rightarrow> bool" where
  "spec_merged_field recordCount fa fb fm =
     (fs_count fm = fs_count fa + fs_count fb \<and>
      fs_instances fm = fs_instances fa + fs_instances fb \<and>
      fs_missing fm = recordCount - fs_count fm \<and>
      fs_completeness fm = ratio (fs_count fm) recordCount \<and>
      fs_fieldStatus fm = fs_fieldStatus fa \<and> fs_fieldStatus fm = fs_fieldStatus fb \<and>
      (\<forall>subfield sa sb.
         map_of (or_empty (fs_subfields fa)) subfield = Some sa \<longrightarrow>
         map_of (or_empty (fs_subfields fb)) subfield = Some sb \<longrightarrow>
         (\<exists>sm. map_of (or_empty (fs_subfields fm)) subfield = Some sm \<and>
               spec_merged_subfield sa sb sm)))"

definition spec_merged_tree :: "stats_tree \<Rightarrow> stats_tree \<Rightarrow> stats_tree \<Rightarrow> bool" where
  "spec_merged_tree ta tb tm =
     (st_count tm = st_count ta + st_count tb \<and>
      (\<forall>field \<in> set (union_keys (st_fields ta) (st_fields tb)).
         \<exists>fa fb fm. map_of (st_fields ta) field = Some fa \<and>
                    map_of (st_fields tb) field = Some fb \<and>
                    map_of (st_fields tm) field = Some fm \<and>
                    spec_merged_field (st_count tm) fa fb fm))"

text \<open>One record with an identifier and one creator.\<close>

definition one_creator :: "(string, json) dict" where
  "one_creator =
     [(''identifier'', JStr ''10.1234/abc''),
      (''creators'', JList [JDict [(''nameType'', JStr ''Personal'')]])]"

text \<open>The normalised record \<open>get_fields\<close> makes of an item that carries a DOI and nothing
  else: every list defaults to the empty list, \<open>types\<close> to the empty dictionary.\<close>

definition doi_only :: "(string, json) dict" where
  "doi_only =
     [(''identifier'', JStr ''10.1234/abc''), (''creators'', JList []), (''titles'', JList []),
      (''publisher'', JNull), (''publicationYear'', JNull), (''resourceType'', JDict []),
      (''subjects'', JList []), (''contributors'', JList []), (''date'', JList []),
      (''relatedIdentifiers'', JList []), (''description'', JList []),
      (''geoLocations'', JList []), (''language'', JNull), (''alternateIdentifiers'', JList []),
      (''sizes'', JList []), (''formats'', JList []), (''version'', JNull),
      (''rights'', JList []), (''fundingReferences'', JList []), (''relatedItems'', JList [])]"

text \<open>The same item with a title, and with a string where the list of creators is expected.\<close>

definition string_creators :: "(string, json) dict" where
  "string_creators =
     [(''identifier'', JStr ''10.1234/abc''), (''creators'', JStr ''Doe, Jane''),
      (''titles'', JList [JDict [(''title'', JStr ''A title'')]]),
      (''publisher'', JNull), (''publicationYear'', JNull), (''resourceType'', JDict []),
      (''subjects'', JList []), (''contributors'', JList []), (''date'', JList []),
      (''relatedIdentifiers'', JList []), (''description'', JList []),
      (''geoLocations'', JList []), (''language'', JNull), (''alternateIdentifiers'', JList []),
      (''sizes'', JList []), (''formats'', JList []), (''version'', JNull),
      (''rights'', JList []), (''fundingReferences'', JList []), (''relatedItems'', JList [])]"

text \<open>The subfield statistics a tree holds under a field and a subfield name.\<close>

definition subfield_of :: "stats_tree \<Rightarrow> string \<Rightarrow> string \<Rightarrow> subfield_stats option" where
  "subfield_of t field_name subfield =
     (case map_of (st_fields t) field_name of
        Some f \<Rightarrow> map_of (or_empty (fs_subfields f)) subfield
      | None \<Rightarrow> None)"

text \<open>The statistics of a subfield inside the statistics of a field.\<close>

definition sub_of :: "field_stats \<Rightarrow> string \<Rightarrow> subfield_stats option" where
  "sub_of fs subfield = map_of (or_empty (fs_subfields fs)) subfield"

text \<open>A contributor whose type is not one of the permitted values; a funding reference
  whose funder identifier type is not one of the permitted values.\<close>

definition unknown_contributor :: json where
  "unknown_contributor = JList [JDict [(''name'', JStr ''Doe, Jane''), (''contributorType'', JStr ''Foo'')]]"

definition unknown_funder_type :: json where
  "unknown_funder_type = JDict [(''funderName'', JStr ''ACME''), (''funderIdentifierType'', JStr ''GRID'')]"

text \<open>An occurrence (an element of a list-valued field) exposes a subfield when it carries
  a value for it that is not empty, under the key the subfield is read from: the name of
  the subfield, and \<open>nameIdentifiers\<close> for \<open>nameIdentifier\<close>.\<close>

definition exposes :: "string \<Rightarrow> json \<Rightarrow> bool" where
  "exposes subfield item =
     (case jget item (if subfield = ''nameIdentifier'' then ''nameIdentifiers'' else subfield) JNull of
        Inr v \<Rightarrow> truthy v
      | Inl e \<Rightarrow> False)"

text \<open>The enumerated subfields read with a membership test (line 473), and an occurrence whose
  value for such a subfield is one of the permitted values.\<close>

definition enumerated_subfields :: "string set" where
  "enumerated_subfields =
     {''contributorType'', ''relationType'', ''relatedIdentifierType'', ''resourceTypeGeneral''}"

definition permitted :: "cfg \<Rightarrow> string \<Rightarrow> json \<Rightarrow> bool" where
  "permitted expected_values subfield item =
     (case jget item subfield JNull of
        Inr v \<Rightarrow> cfg_contains expected_values v = Inr True
      | Inl e \<Rightarrow> False)"

text \<open>The condition under which the branch of \<open>update_subfield_stats\<close> for a subfield counts
  an occurrence; and how many instances the occurrence then adds to the subfield: the
  number of name identifiers or affiliations it lists, one otherwise.\<close>

definition counts_occurrence :: "string \<Rightarrow> string \<Rightarrow> cfg \<Rightarrow> json \<Rightarrow> bool" where
  "counts_occurrence field_name subfield expected_values item =
     (if field_name = ''fundingReferences'' then
        (case jget item subfield JNull of Inr v \<Rightarrow> truthy v | Inl e \<Rightarrow> False)
      else if subfield = ''nameType'' then
        (case jget item ''nameType'' (JStr []) of Inr v \<Rightarrow> truthy v | Inl e \<Rightarrow> False)
      else if subfield = ''nameIdentifier'' then
        (case jget item ''nameIdentifiers'' (JList []) of Inr v \<Rightarrow> truthy v | Inl e \<Rightarrow> False)
      else if subfield = ''affiliation'' then
        (case jget item ''affiliation'' (JList []) of Inr v \<Rightarrow> truthy v | Inl e \<Rightarrow> False)
      else if subfield \<in> {''contributorType'', ''relationType'', ''relatedIdentifierType'',
                          ''resourceTypeGeneral''} then
        (case jget item subfield JNull of
           Inr v \<Rightarrow> truthy v \<and> cfg_contains expected_values v = Inr True
         | Inl e \<Rightarrow> False)
      else False)"

definition occurrences :: "string \<Rightarrow> string \<Rightarrow> json \<Rightarrow> int" where
  "occurrences field_name subfield item =
     (if field_name = ''fundingReferences'' then 1
      else if subfield = ''nameIdentifier'' then
        (case jget item ''nameIdentifiers'' (JList []) of
           Inr v \<Rightarrow> int (length (as_list v)) | Inl e \<Rightarrow> 0)
      else if subfield = ''affiliation'' then
        (case jget item ''affiliation'' (JList []) of
           Inr v \<Rightarrow> int (length (as_list v)) | Inl e \<Rightarrow> 0)
      else 1)"

text \<open>What the list branch knows of a subfield: its count and instances, and whether it is
  in \<open>seen_subfields\<close>.\<close>

definition sub_view :: "string \<Rightarrow> ust \<Rightarrow> (int \<times> int) option \<times> bool" where
  "sub_view subfield st =
     (map_option (\<lambda>s. (sf_count s, sf_instances s)) (sub_of (fst st) subfield), subfield \<in> snd st)"

definition bump :: "int \<Rightarrow> (int \<times> int) option \<times> bool \<Rightarrow> (int \<times> int) option \<times> bool" where
  "bump n v = (map_option (\<lambda>(c, i). (c + (if snd v then 0 else 1), i + n)) (fst v), True)"

text \<open>The creators of a record with one creator, who has two name identifiers.\<close>

definition creator_items :: "json list" where
  "creator_items =
     [JDict [(''name'', JStr ''Doe, Jane''),
             (''nameIdentifiers'',
                JList [JDict [(''nameIdentifier'', JStr ''0000-0001-2345-6789''),
                              (''nameIdentifierScheme'', JStr ''ORCID'')],
                       JDict [(''nameIdentifier'', JStr ''0000 0001 2345 6789''),
                              (''nameIdentifierScheme'', JStr ''ISNI'')]])]]"

text \<open>The contributors of a record with two of them, each with a permitted type; and of a
  record with two of them, the type of the first not a permitted value.\<close>

definition two_contributors :: "json list" where
  "two_contributors =
     [JDict [(''name'', JStr ''Doe, Jane''), (''contributorType'', JStr ''Editor'')],
      JDict [(''name'', JStr ''Roe, Richard''), (''contributorType'', JStr ''Researcher'')]]"

definition mixed_contributors :: "json list" where
  "mixed_contributors =
     [JDict [(''name'', JStr ''Doe, Jane''), (''contributorType'', JStr ''Foo'')],
      JDict [(''name'', JStr ''Roe, Richard''), (''contributorType'', JStr ''Editor'')]]"

text \<open>The subfields counted per identifier or affiliation inside an occurrence.\<close>

definition nested_subfields :: "string set" where
  "nested_subfields = {''nameIdentifierScheme'', ''affiliationIdentifier'', ''affiliationIdentifierScheme''}"

text \<open>The shape of the statistics in the state of the list branch.\<close>

definition ushape :: "ust \<Rightarrow> string option \<times> (string \<times> string list option) list option" where
  "ushape st = fs_shape (fst st)"

text \<open>The count a tree holds for a field, and the views of an entity the counts are read
  from: its summary (\<open>None\<close>) or the tree of one resource type.\<close>

definition count_in :: "stats_tree \<Rightarrow> string \<Rightarrow> int" where
  "count_in t field = fs_get_count (map_of (st_fields t) field)"

definition tree_at :: "entity_stats \<Rightarrow> string option \<Rightarrow> stats_tree option" where
  "tree_at e sel = (case sel of None \<Rightarrow> Some (summary e) | Some rt \<Rightarrow> map_of (byResourceType e) rt)"

definition field_count :: "entity_stats \<Rightarrow> string option \<Rightarrow> string \<Rightarrow> int" where
  "field_count e sel field = (case tree_at e sel of Some t \<Rightarrow> count_in t field | None \<Rightarrow> 0)"

definition record_count :: "entity_stats \<Rightarrow> string option \<Rightarrow> int" where
  "record_count e sel = st_get_count (tree_at e sel)"

section \<open>Category rollup\<close>

lemma accumulate_eq:
  "accumulate status flds acc =
     acc\<lparr>acc_num_fields := acc_num_fields acc + int (length (class_fields status flds)),
         acc_count := acc_count acc + sum_list (map fs_count (class_fields status flds))\<rparr>"
  by (induction flds arbitrary: acc) (auto simp: class_fields_def)

lemma category_completeness_eq:
  assumes "0 \<le> tot"
  shows "category_completeness status flds tot = spec_category_completeness status flds tot"
proof -
  let ?n = "int (length (class_fields status flds))"
  have "0 \<le> tot * ?n" using assms by simp
  then show ?thesis
    by (auto simp: category_completeness_def spec_category_completeness_def accumulate_eq
        set_total_def acc_completeness_def zero_acc_def Let_def)
qed

lemma sum_list_ratio:
  "0 < tot \<Longrightarrow> sum_list (map (\<lambda>f. ratio (fs_count f) tot) fs) = of_int (sum_list (map fs_count fs)) / of_int tot"
  by (induction fs) (auto simp: ratio_def add_divide_distrib)

lemma spec_mean_eq:
  assumes "0 \<le> tot" "\<forall>f \<in> set (map snd flds). fs_completeness f = ratio (fs_count f) tot"
  shows "spec_mean_completeness status flds = spec_category_completeness status flds tot"
proof -
  let ?cls = "class_fields status flds"
  have eq: "map fs_completeness ?cls = map (\<lambda>f. ratio (fs_count f) tot) ?cls"
    using assms(2) by (auto simp: class_fields_def)
  show ?thesis
  proof (cases "tot = 0 \<or> ?cls = []")
    case True
    then show ?thesis
      by (auto simp: spec_mean_completeness_def spec_category_completeness_def eq ratio_def)
  next
    case False
    then have pos: "0 < tot" and ne: "?cls \<noteq> []" using assms(1) by auto
    then show ?thesis
      by (simp add: spec_mean_completeness_def spec_category_completeness_def eq sum_list_ratio)
  qed
qed

text \<open>
  What \<open>calculate_category_metrics\<close> computes. For a record total that is not negative it
  gives each status class the sum of the counts of the fields of the class divided by the
  record total times the number of those fields, and 0 when that denominator is zero. When
  every field stores \<open>count / total\<close> as its completeness, this is the mean of the
  completeness of the fields of the class. The example is the two-field mandatory class of
  the specification: field A present in both of two records, field B in one, category
  completeness 3/4.
\<close>

lemma category_rollup:
  "0 \<le> tot \<longrightarrow>
     calculate_category_metrics flds tot =
       \<lparr>mandatory = spec_category_completeness ''mandatory'' flds tot,
        recommended = spec_category_completeness ''recommended'' flds tot,
        optional = spec_category_completeness ''optional'' flds tot\<rparr> \<and>
     ((\<forall>f \<in> set (map snd flds). fs_completeness f = ratio (fs_count f) tot) \<longrightarrow>
       calculate_category_metrics flds tot =
         \<lparr>mandatory = spec_mean_completeness ''mandatory'' flds,
          recommended = spec_mean_completeness ''recommended'' flds,
          optional = spec_mean_completeness ''optional'' flds\<rparr>)"
  by (simp add: calculate_category_metrics_def category_completeness_eq spec_mean_eq)

lemma category_rollup_example:
  "(0::int) \<le> 2 \<and>
   list_all (\<lambda>f. fs_completeness f = ratio (fs_count f) 2) (map snd example_fields) \<and>
   mandatory (calculate_category_metrics example_fields 2) = 3 / 4 \<and>
   spec_category_completeness ''mandatory'' example_fields 2 = 3 / 4 \<and>
   spec_mean_completeness ''mandatory'' example_fields = 3 / 4"
  using category_rollup [of 2 example_fields]
  by (simp add: example_fields_def ratio_def spec_category_completeness_def
      spec_mean_completeness_def class_fields_def)

section \<open>Pruning\<close>

lemma subfield_values_cleaned:
  "subfield_values (map (\<lambda>(subfield, s). (subfield, round_subfield s))
                        (map (\<lambda>(subfield, s). (subfield, clean_subfield s)) subs))
     = map (\<lambda>(subfield, vs). (subfield, spec_positive_entries vs)) (subfield_values subs)"
  by (induction subs)
     (auto simp: subfield_values_def round_subfield_def clean_subfield_def clean_values_def
        spec_positive_entries_def split: option.splits)

lemma keyed_values:
  "map (\<lambda>(subfield, vs). ((n, subfield), vs)) (map (\<lambda>(subfield, vs). (subfield, g vs)) xs)
     = map (\<lambda>(k, vs). (k, g vs)) (map (\<lambda>(subfield, vs). ((n, subfield), vs)) xs)"
  by (induction xs) auto

lemma field_values_cleaned:
  "field_values n (round_field (clean_field f)) = spec_cleaned (field_values n f)"
proof (cases "fs_subfields f")
  case None
  then show ?thesis
    by (simp add: field_values_def round_field_def clean_field_def or_empty_def subfield_values_def
        spec_cleaned_def)
next
  case (Some subs)
  then show ?thesis
    by (simp add: field_values_def round_field_def clean_field_def or_empty_def
        subfield_values_cleaned keyed_values spec_cleaned_def del: map_map)
qed

lemma fields_values_cleaned:
  "concat (map (\<lambda>(n, f). field_values n f)
             (map (\<lambda>(n, f). (n, round_field f)) (map (\<lambda>(n, f). (n, clean_field f)) flds)))
     = spec_cleaned (concat (map (\<lambda>(n, f). field_values n f) flds))"
  by (induction flds) (auto simp: field_values_cleaned spec_cleaned_def)

lemma tree_values_cleaned: "tree_values (round_tree (clean_tree u)) = spec_cleaned (tree_values u)"
  by (simp add: tree_values_def round_tree_def clean_tree_def clean_subfields_def
      fields_values_cleaned del: map_map)

lemma cleaned_summary:
  "summary (remove_zero_count_resource_types_and_clean e) = round_tree (clean_tree (summary e))"
  by (simp add: remove_zero_count_resource_types_and_clean_def round_completeness_values_def)

lemma cleaned_resource_types:
  "byResourceType (remove_zero_count_resource_types_and_clean e)
     = map (\<lambda>(rt, t). (rt, round_tree (clean_tree t)))
         (filter (\<lambda>(rt, t). 0 < st_count t) (byResourceType e))"
  by (simp add: remove_zero_count_resource_types_and_clean_def round_completeness_values_def
      case_prod_unfold comp_def)

lemma spec_cleaned_positive:
  "(k, vs) \<in> set (spec_cleaned entries) \<Longrightarrow> (v, c) \<in> set vs \<Longrightarrow> 0 < c"
  by (auto simp: spec_cleaned_def spec_positive_entries_def)

text \<open>
  Claim C10. After \<open>remove_zero_count_resource_types_and_clean\<close> the value counters of the
  summary are those of the summary before, each \<open>values\<close> dictionary reduced to exactly its
  entries with a positive counter, in the same order; the resource types left are those with
  a positive record count, each with its value counters reduced in the same way. So every
  counter left in the output is strictly positive, every entry with a zero counter (the
  whole enumeration the factory put there, where nothing was counted) is gone, and every
  positive counter is still there with its value: a value absent from the output had a
  counter that was not positive.
\<close>

theorem cleaned_values_exactly_positive:
  "tree_values (summary (remove_zero_count_resource_types_and_clean e))
     = spec_cleaned (tree_values (summary e)) \<and>
   map (\<lambda>(rt, t). (rt, tree_values t))
       (byResourceType (remove_zero_count_resource_types_and_clean e))
     = map (\<lambda>(rt, t). (rt, spec_cleaned (tree_values t)))
         (filter (\<lambda>(rt, t). 0 < st_count t) (byResourceType e)) \<and>
   (\<forall>t k vs v c.
      t = summary (remove_zero_count_resource_types_and_clean e) \<or>
      t \<in> snd ` set (byResourceType (remove_zero_count_resource_types_and_clean e)) \<longrightarrow>
      (k, vs) \<in> set (tree_values t) \<longrightarrow> (v, c) \<in> set vs \<longrightarrow> 0 < c)"
proof (intro conjI allI impI)
  show "tree_values (summary (remove_zero_count_resource_types_and_clean e))
     = spec_cleaned (tree_values (summary e))"
    by (simp add: cleaned_summary tree_values_cleaned)
  show "map (\<lambda>(rt, t). (rt, tree_values t))
       (byResourceType (remove_zero_count_resource_types_and_clean e))
     = map (\<lambda>(rt, t). (rt, spec_cleaned (tree_values t)))
         (filter (\<lambda>(rt, t). 0 < st_count t) (byResourceType e))"
    by (simp add: cleaned_resource_types tree_values_cleaned case_prod_unfold comp_def)
next
  fix t k vs v c
  assume t: "t = summary (remove_zero_count_resource_types_and_clean e) \<or>
      t \<in> snd ` set (byResourceType (remove_zero_count_resource_types_and_clean e))"
    and k: "(k, vs) \<in> set (tree_values t)" and v: "(v, c) \<in> set vs"
  from t obtain u where "t = round_tree (clean_tree u)"
    by (auto simp: cleaned_summary cleaned_resource_types)
  with k have "(k, vs) \<in> set (spec_cleaned (tree_values u))" by (simp add: tree_values_cleaned)
  then show "0 < c" using v by (rule spec_cleaned_positive)
qed

lemma round4_one: "round4 1 = 1"
  by (simp add: round4_def round_half_even_def to_double_def floor_log2_def pow2_def bitlen_def
      floorlog_def Let_def)

lemma round4_zero: "round4 0 = 0"
  by (simp add: round4_def round_half_even_def to_double_def)

theorem cleaned_values_exactly_positive_witness:
  "tree_values (summary tiny_stats)
     = [((''creators'', ''nameType''), [(''Personal'', 2), (''Organizational'', 0)])] \<and>
   tree_values (summary (remove_zero_count_resource_types_and_clean tiny_stats))
     = [((''creators'', ''nameType''), [(''Personal'', 2)])] \<and>
   map (\<lambda>(rt, t). (rt, tree_values t))
       (byResourceType (remove_zero_count_resource_types_and_clean tiny_stats))
     = [(''Dataset'', [])]"
proof -
  have a: "tree_values (summary tiny_stats)
     = [((''creators'', ''nameType''), [(''Personal'', 2), (''Organizational'', 0)])]"
    by (simp add: tiny_stats_def tree_values_def field_values_def subfield_values_def or_empty_def)
  have b: "map (\<lambda>(rt, t). (rt, spec_cleaned (tree_values t)))
             (filter (\<lambda>(rt, t). 0 < st_count t) (byResourceType tiny_stats)) = [(''Dataset'', [])]"
    by (simp add: tiny_stats_def tree_values_def spec_cleaned_def)
  from cleaned_values_exactly_positive [of tiny_stats] show ?thesis
    unfolding a b by (simp add: spec_cleaned_def spec_positive_entries_def)
qed

lemma summary_clean_count:
  "st_count (summary (remove_zero_count_resource_types_and_clean e)) = st_count (summary e)"
  by (simp add: remove_zero_count_resource_types_and_clean_def round_completeness_values_def
      round_tree_def clean_tree_def)

lemma cleaned_resource_types_positive:
  "(rt, t) \<in> set (byResourceType (remove_zero_count_resource_types_and_clean e)) \<Longrightarrow> st_count t > 0"
  by (auto simp: remove_zero_count_resource_types_and_clean_def round_completeness_values_def
      round_tree_def clean_tree_def)

lemma merge_stats_summary_count:
  "st_count (summary (merge_stats a b)) = st_count (summary a) + st_count (summary b)"
  by (simp add: merge_stats_def merge_type_stats_def st_get_count_def Let_def)

lemma empty_summary_count: "st_count (summary create_empty_stats) = 0"
  by (simp add: create_empty_stats_def create_empty_tree_def)

lemma foldl_merge_count:
  "st_count (summary (foldl merge_stats a es)) = st_count (summary a) + sum_list (map (\<lambda>e. st_count (summary e)) es)"
  by (induction es arbitrary: a) (auto simp: merge_stats_summary_count)

lemma aggregate_all_count:
  "st_count (summary (aggregate_all entries)) = sum_list (map (\<lambda>(i, e). st_count (summary e)) entries)"
  by (simp add: aggregate_all_def foldl_merge_count empty_summary_count comp_def case_prod_unfold)

lemma dict_set_mem: "(i, e) \<in> set (dict_set d k v) \<Longrightarrow> (i, e) \<in> set d \<or> (i = k \<and> e = v)"
  by (induction d) (auto split: if_splits)

lemma map_of_dict_set: "map_of (dict_set d k v) k = Some v"
  by (induction d) auto

lemma map_of_map_val: "map_of (map (\<lambda>(i, e). (i, f e)) d) k = map_option f (map_of d k)"
  by (induction d) auto

text \<open>
  Claim C9, as amended. In the output of the final phase, every resource type entry of every
  provider and client has a positive record count, and every provider and client other than
  the synthetic \<open>aggregate\<close> and \<open>aggregate.all\<close> has a positive summary count. The two
  synthetic entities are always present; the summary count of each is the sum of the summary
  counts of the providers (clients) that survived the filter, hence zero when none did.
\<close>

theorem finalize_pruned:
  "(\<forall>(i, e) \<in> set (providers (finalize m)) \<union> set (clients (finalize m)).
      \<forall>(rt, t) \<in> set (byResourceType e). st_count t > 0) \<and>
   (\<forall>(i, e) \<in> set (providers (finalize m)). i \<noteq> ''aggregate'' \<longrightarrow> st_count (summary e) > 0) \<and>
   (\<forall>(i, e) \<in> set (clients (finalize m)). i \<noteq> ''aggregate.all'' \<longrightarrow> st_count (summary e) > 0) \<and>
   (\<exists>a. map_of (providers (finalize m)) ''aggregate'' = Some a \<and>
        st_count (summary a) = sum_list (map (\<lambda>(i, e). st_count (summary e)) (active_providers m))) \<and>
   (\<exists>a. map_of (clients (finalize m)) ''aggregate.all'' = Some a \<and>
        st_count (summary a) = sum_list (map (\<lambda>(i, e). st_count (summary e)) (active_clients m)))"
proof (intro conjI)
  show "\<forall>(i, e) \<in> set (providers (finalize m)) \<union> set (clients (finalize m)).
      \<forall>(rt, t) \<in> set (byResourceType e). st_count t > 0"
    by (auto simp: finalize_def clean_resource_types_def dest: cleaned_resource_types_positive)
  show "\<forall>(i, e) \<in> set (providers (finalize m)). i \<noteq> ''aggregate'' \<longrightarrow> st_count (summary e) > 0"
    by (auto simp: finalize_def clean_resource_types_def create_aggregate_entries_def
        filter_active_only_def summary_clean_count dest!: dict_set_mem)
  show "\<forall>(i, e) \<in> set (clients (finalize m)). i \<noteq> ''aggregate.all'' \<longrightarrow> st_count (summary e) > 0"
    by (auto simp: finalize_def clean_resource_types_def create_aggregate_entries_def
        filter_active_only_def summary_clean_count dest!: dict_set_mem)
  show "\<exists>a. map_of (providers (finalize m)) ''aggregate'' = Some a \<and>
        st_count (summary a) = sum_list (map (\<lambda>(i, e). st_count (summary e)) (active_providers m))"
    by (simp add: finalize_def clean_resource_types_def create_aggregate_entries_def
        map_of_map_val map_of_dict_set summary_clean_count aggregate_all_count active_providers_def)
  show "\<exists>a. map_of (clients (finalize m)) ''aggregate.all'' = Some a \<and>
        st_count (summary a) = sum_list (map (\<lambda>(i, e). st_count (summary e)) (active_clients m))"
    by (simp add: finalize_def clean_resource_types_def create_aggregate_entries_def
        map_of_map_val map_of_dict_set summary_clean_count aggregate_all_count active_clients_def)
qed

text \<open>Claim C9 as stated fails: with no record for any provider, the synthetic aggregate
  provider is in the output with a summary count of zero.\<close>

theorem finalize_aggregate_counterexample:
  "\<not> (\<forall>(i, e) \<in> set (providers (finalize no_records)). st_count (summary e) > 0)"
proof -
  have "providers (finalize no_records) =
          [(''aggregate'', remove_zero_count_resource_types_and_clean create_empty_stats)]"
    by (simp add: finalize_def clean_resource_types_def create_aggregate_entries_def
        filter_active_only_def no_records_def empty_summary_count aggregate_all_def)
  then show ?thesis by (simp add: summary_clean_count empty_summary_count)
qed

lemma tiny_count: "st_count (summary tiny_stats) = 2"
  by (simp add: tiny_stats_def)

lemma one_provider_active: "active_providers one_provider = [(''cern'', tiny_stats)]"
  by (simp add: active_providers_def filter_active_only_def one_provider_def tiny_count
      empty_summary_count)

lemma one_provider_final:
  "(''cern'', remove_zero_count_resource_types_and_clean tiny_stats)
     \<in> set (providers (finalize one_provider))"
  by (simp add: finalize_def clean_resource_types_def create_aggregate_entries_def
      filter_active_only_def one_provider_def tiny_count empty_summary_count)

theorem finalize_pruned_witness:
  "(''cern'', remove_zero_count_resource_types_and_clean tiny_stats)
     \<in> set (providers (finalize one_provider)) \<and>
   ''cern'' \<noteq> ''aggregate'' \<and>
   0 < st_count (summary (remove_zero_count_resource_types_and_clean tiny_stats)) \<and>
   map fst (byResourceType (remove_zero_count_resource_types_and_clean tiny_stats)) = [''Dataset''] \<and>
   (\<exists>a. map_of (providers (finalize one_provider)) ''aggregate'' = Some a \<and>
        st_count (summary a) = 2)"
proof -
  have types: "map fst (byResourceType (remove_zero_count_resource_types_and_clean tiny_stats)) = [''Dataset'']"
    by (simp add: remove_zero_count_resource_types_and_clean_def round_completeness_values_def
        tiny_stats_def)
  from finalize_pruned [of one_provider] one_provider_final
  have "0 < st_count (summary (remove_zero_count_resource_types_and_clean tiny_stats))"
    by fastforce
  moreover from finalize_pruned [of one_provider]
  have "\<exists>a. map_of (providers (finalize one_provider)) ''aggregate'' = Some a \<and>
        st_count (summary a) = 2"
    by (simp add: one_provider_active tiny_count)
  ultimately show ?thesis using one_provider_final types by simp
qed

section \<open>Dictionaries and outcomes\<close>

lemma dict_set_keys: "map_of d k = Some c \<Longrightarrow> map fst (dict_set d k v) = map fst d"
  by (induction d) (auto split: if_splits)

lemma map_of_dict_set_eq: "map_of (dict_set d k v) = (map_of d)(k \<mapsto> v)"
  by (induction d) (auto simp: fun_eq_iff)

lemma dict_set_map_same:
  "map_of d k = Some v \<Longrightarrow> h v' = h v \<Longrightarrow>
     map (\<lambda>(n, s). (n, h s)) (dict_set d k v') = map (\<lambda>(n, s). (n, h s)) d"
  by (induction d) (auto split: if_splits)

lemma map_of_in_keys: "map_of d k = Some v \<Longrightarrow> k \<in> set (map fst d)"
  by (induction d) (auto split: if_splits)

lemma state_of_and_then:
  "state_of (and_then r f) = (case r of Done s \<Rightarrow> state_of (f s) | Raised e s \<Rightarrow> s)"
  by (cases r) (auto simp: and_then_def)

lemma for_each_keeps:
  assumes "\<And>x s. p (state_of (body x s)) = p s"
  shows "p (state_of (for_each body xs s)) = p s"
proof (induction xs arbitrary: s)
  case Nil
  show ?case by simp
next
  case (Cons x xs)
  show ?case
  proof (cases "body x s")
    case (Done s')
    then have "p s' = p s" using assms [of x s] by simp
    with Done Cons show ?thesis by simp
  next
    case (Raised e s')
    then have "p s' = p s" using assms [of x s] by simp
    with Raised show ?thesis by simp
  qed
qed

lemma and_then_keeps:
  assumes "p (state_of r) = q" "\<And>s. p (state_of (f s)) = p s"
  shows "p (state_of (and_then r f)) = q"
  using assms by (cases r) (auto simp: and_then_def)

section \<open>The subfield updater keeps counts, status and shape of its field\<close>

lemma inc_count_shape: "sf_shape (state_of (inc_count s)) = sf_shape s"
  by (simp add: inc_count_def sf_shape_def)

lemma add_instances_shape: "sf_shape (state_of (add_instances n s)) = sf_shape s"
  by (simp add: add_instances_def sf_shape_def)

lemma recompute_shape: "sf_shape (state_of (recompute t s)) = sf_shape s"
  by (simp add: recompute_def sf_shape_def)

lemma inc_value_shape: "sf_shape (state_of (inc_value v s)) = sf_shape s"
  by (auto simp: inc_value_def sf_shape_def dict_set_keys
      split: option.splits json.splits)

lemma modify_subfield_core:
  assumes "\<And>s. sf_shape (state_of (g s)) = sf_shape s"
  shows "fs_core (state_of (modify_subfield subfield g fs)) = fs_core fs"
proof (cases "fs_subfields fs")
  case None
  then show ?thesis by (simp add: modify_subfield_def)
next
  case (Some subs)
  show ?thesis
  proof (cases "map_of subs subfield")
    case None
    with Some show ?thesis by (simp add: modify_subfield_def)
  next
    case (Some s)
    have "subs_shape (dict_set subs subfield (state_of (g s))) = subs_shape subs"
      unfolding subs_shape_def using Some assms [of s] by (rule dict_set_map_same)
    with Some \<open>fs_subfields fs = Some subs\<close> show ?thesis
      by (cases "g s") (auto simp: modify_subfield_def fs_core_def fs_shape_def)
  qed
qed

lemmas modify_core =
  modify_subfield_core [of inc_count, OF inc_count_shape]
  modify_subfield_core [of "add_instances n", OF add_instances_shape]
  modify_subfield_core [of "recompute t", OF recompute_shape]
  modify_subfield_core [of "inc_value v", OF inc_value_shape]
  for n t v

lemma on_stats_core:
  assumes "\<And>fs. fs_core (state_of (f fs)) = fs_core fs"
  shows "ucore (state_of (on_stats f st)) = ucore st"
  using assms [of "fst st"] by (cases "f (fst st)") (auto simp: on_stats_def ucore_def)

lemmas on_stats_modify_core =
  on_stats_core [of "modify_subfield subfield inc_count", OF modify_core(1)]
  on_stats_core [of "modify_subfield subfield (add_instances n)", OF modify_core(2)]
  on_stats_core [of "modify_subfield subfield (recompute t)", OF modify_core(3)]
  on_stats_core [of "modify_subfield subfield (inc_value v)", OF modify_core(4)]
  for subfield n t v

lemma mark_seen_core:
  "ucore (state_of (and_then (on_stats (modify_subfield subfield inc_count) st)
                             (\<lambda>st'. Done (fst st', insert subfield (snd st'))))) = ucore st"
proof (rule and_then_keeps [where p = ucore])
  show "ucore (state_of (on_stats (modify_subfield subfield inc_count) st)) = ucore st"
    by (rule on_stats_modify_core)
  show "ucore (state_of (Done (fst s, insert subfield (snd s)))) = ucore s" for s
    by (simp add: ucore_def)
qed

lemma count_subfield_core: "ucore (state_of (count_subfield subfield n st)) = ucore st"
  unfolding count_subfield_def
proof (rule and_then_keeps [where p = ucore])
  show "ucore (state_of (if subfield \<notin> snd st
          then and_then (on_stats (modify_subfield subfield inc_count) st)
                 (\<lambda>st'. Done (fst st', insert subfield (snd st')))
          else Done st)) = ucore st"
    by (simp add: mark_seen_core)
  show "ucore (state_of (on_stats (modify_subfield subfield (add_instances n)) s)) = ucore s" for s
    by (rule on_stats_modify_core)
qed

lemma counted_value_core:
  "ucore (state_of (and_then (count_subfield subfield n st)
                             (on_stats (modify_subfield subfield' (inc_value v))))) = ucore st"
  by (rule and_then_keeps [where p = ucore]) (simp_all add: count_subfield_core on_stats_modify_core)

lemma identifier_step_core: "ucore (state_of (identifier_step field_config identifier st)) = ucore st"
  unfolding identifier_step_def
  by (simp add: counted_value_core split: sum.splits option.splits bool.splits)

lemma counted_then_core:
  assumes "\<And>s. ucore (state_of (f s)) = ucore s"
  shows "ucore (state_of (and_then (count_subfield subfield n st) f)) = ucore st"
  by (rule and_then_keeps [where p = ucore], rule count_subfield_core, rule assms)

lemma affiliation_scheme_core:
  "ucore (state_of (affiliation_scheme field_config affiliation st)) = ucore st"
  unfolding affiliation_scheme_def
  by (simp add: counted_value_core split: sum.splits option.splits bool.splits)

lemma affiliation_step_core: "ucore (state_of (affiliation_step field_config affiliation st)) = ucore st"
  unfolding affiliation_step_def
  by (simp add: counted_then_core affiliation_scheme_core split: json.splits sum.splits)

lemma funding_value_core:
  "ucore (state_of (funding_value subfield expected_values v st)) = ucore st"
  unfolding funding_value_def
  by (simp add: on_stats_modify_core split: cfg.splits sum.splits)

lemma funding_branch_core:
  "ucore (state_of (funding_branch subfield expected_values item st)) = ucore st"
  unfolding funding_branch_def
  by (simp add: counted_then_core funding_value_core split: sum.splits)

lemma nameType_branch_core: "ucore (state_of (nameType_branch item st)) = ucore st"
  unfolding nameType_branch_def
  by (simp add: counted_value_core split: sum.splits)

lemma counted_loop_core:
  assumes "\<And>x s. ucore (state_of (body x s)) = ucore s"
  shows "ucore (state_of (and_then (count_subfield subfield n st) (for_each body xs))) = ucore st"
  by (rule and_then_keeps [where p = ucore], rule count_subfield_core,
      rule for_each_keeps [where p = ucore], rule assms)

lemma nameIdentifier_branch_core:
  "ucore (state_of (nameIdentifier_branch field_config item st)) = ucore st"
  unfolding nameIdentifier_branch_def
  by (simp add: counted_loop_core identifier_step_core split: sum.splits)

lemma affiliation_branch_core:
  "ucore (state_of (affiliation_branch field_config item st)) = ucore st"
  unfolding affiliation_branch_def
  by (simp add: counted_loop_core affiliation_step_core split: sum.splits)

lemma enumerated_branch_core:
  "ucore (state_of (enumerated_branch subfield expected_values item st)) = ucore st"
  unfolding enumerated_branch_def
  by (simp add: counted_value_core split: sum.splits bool.splits)

lemma subfield_step_core:
  "ucore (state_of (subfield_step field_name field_config item entry st)) = ucore st"
  unfolding subfield_step_def Let_def
  by (simp add: funding_branch_core nameType_branch_core nameIdentifier_branch_core
      affiliation_branch_core enumerated_branch_core del: insert_iff)

lemma item_step_core: "ucore (state_of (item_step field_name field_config item st)) = ucore st"
  unfolding item_step_def
  by (rule for_each_keeps [where p = ucore]) (rule subfield_step_core)

lemma recompute_step_core: "fs_core (state_of (recompute_step t subfield fs)) = fs_core fs"
  unfolding recompute_step_def
  by (simp add: modify_core split: option.splits)

lemma single_values_core:
  "fs_core (state_of (case map_of (or_empty (fs_subfields fs2)) subfield of
             Some s \<Rightarrow> if sf_values s \<noteq> None
                       then modify_subfield subfield (inc_value v) fs2
                       else Done fs2
           | None \<Rightarrow> Raised KeyError fs2)) = fs_core fs2"
  by (simp add: modify_core split: option.splits)

lemma single_count_core: "fs_core (state_of (single_count t subfield v fs)) = fs_core fs"
  unfolding single_count_def
  by (rule and_then_keeps [where p = fs_core], rule modify_core,
      rule and_then_keeps [where p = fs_core], rule modify_core,
      rule and_then_keeps [where p = fs_core], rule single_values_core, rule modify_core)

lemma single_step_core: "fs_core (state_of (single_step t field_value entry fs)) = fs_core fs"
  unfolding single_step_def Let_def
  by (simp add: single_count_core split: sum.splits option.splits bool.splits)

lemma instances_core: "fs_core (fs\<lparr>fs_instances := n\<rparr>) = fs_core fs"
  by (simp add: fs_core_def fs_shape_def)

lemma items_core:
  "fs_core (fst (state_of (for_each (item_step field_name cfg) items (fs, seen)))) = fs_core fs"
  using for_each_keeps [where p = ucore and body = "item_step field_name cfg", OF item_step_core,
      of items "(fs, seen)"]
  by (simp add: ucore_def)

lemma recompute_loop_core: "fs_core (state_of (for_each (recompute_step t) ks fs)) = fs_core fs"
  by (rule for_each_keeps [where p = fs_core]) (rule recompute_step_core)

lemma single_loop_core: "fs_core (state_of (for_each (single_step t field_value) cfg fs)) = fs_core fs"
  by (rule for_each_keeps [where p = fs_core]) (rule single_step_core)

lemma list_branch_core:
  "fs_core (state_of (case for_each (item_step field_name cfg) items (fs, {}) of
                        Raised e st \<Rightarrow> Raised e (fst st)
                      | Done st \<Rightarrow> for_each (recompute_step t) ks (fst st))) = fs_core fs"
proof (cases "for_each (item_step field_name cfg) items (fs, {})")
  case (Done st)
  with items_core [of field_name cfg items fs "{}"] have "fs_core (fst st) = fs_core fs" by simp
  with Done show ?thesis by (simp add: recompute_loop_core)
next
  case (Raised e st)
  with items_core [of field_name cfg items fs "{}"] show ?thesis by simp
qed

lemma update_subfield_stats_core:
  "fs_core (state_of (update_subfield_stats field_value field_name fs t)) = fs_core fs"
  unfolding update_subfield_stats_def
  by (simp add: list_branch_core single_loop_core instances_core split: option.splits json.splits)

section \<open>Invariants of built statistics\<close>

lemmas schema_defs = FIELD_STATUS_def SUBFIELD_STATS_def creators_config_def contributors_config_def
  resourceType_config_def relatedIdentifiers_config_def fundingReferences_config_def
  resourceTypeGeneral_values_def

lemma map_of_map_keys:
  "map_of (map (\<lambda>k. (k, g k)) ks) k = (if k \<in> set ks then Some (g k) else None)"
  by (induction ks) auto

lemma dict_pointwise:
  "distinct (map fst d) \<Longrightarrow>
     map (\<lambda>k. (k, g (map_of d k))) (map fst d) = map (\<lambda>(k, v). (k, g (Some v))) d"
proof (induction d)
  case Nil
  show ?case by simp
next
  case (Cons x d)
  obtain k v where x: "x = (k, v)" by (cases x)
  from Cons.prems x have notin: "k \<notin> set (map fst d)" and dist: "distinct (map fst d)" by auto
  have "map (\<lambda>k'. (k', g (map_of (x # d) k'))) (map fst d) = map (\<lambda>k'. (k', g (map_of d k'))) (map fst d)"
    using notin x by (intro map_cong) auto
  with Cons.IH [OF dist] x show ?case by simp
qed

lemma union_keys_same: "map fst d1 = map fst d2 \<Longrightarrow> union_keys d1 d2 = map fst d1"
  by (simp add: union_keys_def)

lemma map_of_shape: "map_of (map (\<lambda>(n, f). (n, h f)) d) k = map_option h (map_of d k)"
  by (induction d) auto

lemma keys_of_shape: "map fst (map (\<lambda>(n, f). (n, h f)) d) = map fst d"
  by (induction d) auto

lemma fields_shape_keys: "map fst (fields_shape d) = map fst d"
  unfolding fields_shape_def by (rule keys_of_shape)

lemma subs_shape_keys: "map fst (subs_shape d) = map fst d"
  unfolding subs_shape_def by (rule keys_of_shape)

lemma map_of_key_some: "k \<in> set (map fst d) \<Longrightarrow> \<exists>v. map_of d k = Some v"
  by (induction d) auto

section \<open>The schema's shape\<close>

lemma empty_field_counts:
  "fs_count (create_empty_field_stats n s) = 0" "fs_missing (create_empty_field_stats n s) = 0"
  "fs_instances (create_empty_field_stats n s) = 0" "fs_completeness (create_empty_field_stats n s) = 0"
  "fs_fieldStatus (create_empty_field_stats n s) = Some s"
  by (simp_all add: create_empty_field_stats_def)

lemma empty_tree_count: "st_count create_empty_tree = 0"
  by (simp add: create_empty_tree_def)

lemma empty_tree_keys: "map fst (st_fields create_empty_tree) = field_names"
  by (simp add: create_empty_tree_def case_prod_unfold comp_def field_names_def)

lemma schema_keys: "map fst schema_shape = field_names"
  by (simp add: schema_shape_def fields_shape_keys empty_tree_keys)

lemma field_names_distinct: "distinct field_names"
  by (simp add: field_names_def FIELD_STATUS_def)

lemma field_names_nonempty: "field_names \<noteq> []"
  by (simp add: field_names_def FIELD_STATUS_def)

lemma resource_types_distinct: "distinct resourceTypeGeneral_values"
  by (simp add: resourceTypeGeneral_values_def)

lemma config_keys_distinct:
  "map_of SUBFIELD_STATS n = Some cfg \<Longrightarrow> distinct (map fst cfg)"
  by (auto simp: SUBFIELD_STATS_def creators_config_def contributors_config_def
      resourceType_config_def relatedIdentifiers_config_def fundingReferences_config_def
      split: if_splits)

lemma create_subfields_keys:
  "map fst (create_subfields all cfg) = filter (\<lambda>k. k \<noteq> ''multiple'') (map fst (filter (\<lambda>(k, c). \<not> (\<exists>b. c = CBool b)) cfg))"
  by (induction all cfg rule: create_subfields.induct) (auto split: cfg.splits)

lemma create_subfields_distinct: "distinct (map fst cfg) \<Longrightarrow> distinct (map fst (create_subfields all cfg))"
  by (simp add: create_subfields_keys distinct_map_filter)

lemma empty_field_subfields_distinct:
  "fs_subfields (create_empty_field_stats n s) = Some subs \<Longrightarrow> distinct (map fst subs)"
  by (auto simp: create_empty_field_stats_def split: option.splits
      intro: create_subfields_distinct config_keys_distinct)

lemma empty_tree_ok: "tree_ok create_empty_tree"
proof -
  have "list_all (\<lambda>(n, f). fs_count f + fs_missing f \<le> st_count create_empty_tree)
          (st_fields create_empty_tree)"
    by (simp add: create_empty_tree_def list_all_iff empty_field_counts case_prod_unfold)
  moreover have "map_of (st_fields create_empty_tree) ''identifier''
        = Some (create_empty_field_stats ''identifier'' ''mandatory'')"
    by (simp add: create_empty_tree_def FIELD_STATUS_def)
  ultimately show ?thesis
    by (simp add: tree_ok_def schema_shape_def empty_field_counts empty_tree_count)
qed

lemma empty_stats_ok: "entity_ok create_empty_stats"
  by (simp add: entity_ok_def create_empty_stats_def empty_tree_ok resourceType_config_def
      list_all_iff comp_def)

section \<open>Merging keeps the shape\<close>

lemma merged_shape:
  assumes eq: "map (\<lambda>(n, x). (n, sh x)) d1 = map (\<lambda>(n, x). (n, sh x)) d2"
    and dist: "distinct (map fst d1)"
    and m: "\<And>k x y. map_of d1 k = Some x \<Longrightarrow> sh x = sh y \<Longrightarrow> sh (m (Some x) (Some y)) = sh x"
  shows "map (\<lambda>(n, x). (n, sh x)) (map (\<lambda>k. (k, m (map_of d1 k) (map_of d2 k))) (union_keys d1 d2))
           = map (\<lambda>(n, x). (n, sh x)) d1"
proof -
  have keys: "map fst d1 = map fst d2"
    using arg_cong [OF eq, of "map fst"] by (simp only: keys_of_shape)
  have look: "map_option sh (map_of d1 k) = map_option sh (map_of d2 k)" for k
    using arg_cong [OF eq, of "\<lambda>d. map_of d k"] by (simp only: map_of_shape)
  have "map (\<lambda>(n, x). (n, sh x)) (map (\<lambda>k. (k, m (map_of d1 k) (map_of d2 k))) (union_keys d1 d2))
          = map (\<lambda>k. (k, sh (m (map_of d1 k) (map_of d2 k)))) (map fst d1)"
    by (simp add: union_keys_same [OF keys] comp_def)
  also have "\<dots> = map (\<lambda>k. (k, (sh \<circ> the) (map_of d1 k))) (map fst d1)"
  proof (rule map_cong [OF refl])
    fix k assume "k \<in> set (map fst d1)"
    then obtain x where x: "map_of d1 k = Some x" using map_of_key_some by fastforce
    with look [of k] obtain y where y: "map_of d2 k = Some y" and "sh x = sh y"
      by (cases "map_of d2 k") auto
    with x m [of k x y] show "(k, sh (m (map_of d1 k) (map_of d2 k))) = (k, (sh \<circ> the) (map_of d1 k))"
      by simp
  qed
  also have "\<dots> = map (\<lambda>(k, v). (k, (sh \<circ> the) (Some v))) d1"
    by (rule dict_pointwise [OF dist])
  finally show ?thesis by simp
qed

lemma merge_values_keys: "map fst (merge_values v1 v2) = union_keys v1 v2"
  by (simp add: merge_values_def comp_def)

lemma merge_subfield_shape:
  "sf_shape s1 = sf_shape s2 \<Longrightarrow> sf_shape (merge_subfield t (Some s1) (Some s2)) = sf_shape s1"
  by (cases "sf_values s1"; cases "sf_values s2")
     (auto simp: sf_shape_def merge_subfield_def sf_get_values_def or_empty_def merge_values_keys
       union_keys_same Let_def)

lemma merge_subfields_shape:
  assumes "subs_shape s1 = subs_shape s2" "distinct (map fst s1)"
  shows "subs_shape (merge_subfields t s1 s2) = subs_shape s1"
  using merged_shape [of sf_shape s1 s2 "merge_subfield t", OF _ assms(2) merge_subfield_shape] assms(1)
  by (simp add: subs_shape_def merge_subfields_def)

lemma fieldStatus_same:
  "fs_fieldStatus a = fs_fieldStatus b \<Longrightarrow> fs_get_fieldStatus (Some a) (Some b) = fs_fieldStatus b"
  by (simp add: fs_get_fieldStatus_def split: option.splits)

lemma merge_field_shape:
  assumes "fs_shape f1 = fs_shape f2" "subs_distinct f1"
  shows "fs_shape (merge_field t (Some f1) (Some f2)) = fs_shape f1"
proof (cases "fs_subfields f1")
  case None
  with assms(1) have "fs_subfields f2 = None" by (simp add: fs_shape_def)
  with None assms(1) show ?thesis
    by (simp add: fs_shape_def merge_field_def fs_get_subfields_def fieldStatus_same Let_def)
next
  case (Some s1)
  with assms(1) obtain s2 where s2: "fs_subfields f2 = Some s2" "subs_shape s1 = subs_shape s2"
    by (cases "fs_subfields f2") (auto simp: fs_shape_def)
  from Some assms(2) have "distinct (map fst s1)" by (simp add: subs_distinct_def)
  from merge_subfields_shape [OF s2(2) this] Some s2(1) assms(1) show ?thesis
    by (simp add: fs_shape_def merge_field_def fs_get_subfields_def fieldStatus_same
        or_empty_def Let_def)
qed

lemma shape_lookup:
  "fields_shape d = sh \<Longrightarrow> map_option fs_shape (map_of d k) = map_of sh k"
  by (auto simp: fields_shape_def map_of_shape)

lemma subs_distinct_shape:
  assumes "fs_shape g = fs_shape f" "subs_distinct g"
  shows "subs_distinct f"
proof (cases "fs_subfields f")
  case None
  then show ?thesis by (simp add: subs_distinct_def)
next
  case (Some y)
  with assms(1) obtain x where x: "fs_subfields g = Some x" "subs_shape x = subs_shape y"
    by (cases "fs_subfields g") (auto simp: fs_shape_def)
  have "map fst x = map fst y" by (metis x(2) subs_shape_keys)
  with assms(2) x(1) Some show ?thesis by (simp add: subs_distinct_def)
qed

lemma schema_subs_distinct:
  assumes "fields_shape d = schema_shape" "map_of d k = Some f"
  shows "subs_distinct f"
proof -
  from shape_lookup [OF assms(1), of k] assms(2)
  have "map_of schema_shape k = Some (fs_shape f)" by simp
  then have "map_option fs_shape (map_of (st_fields create_empty_tree) k) = Some (fs_shape f)"
    by (simp add: schema_shape_def fields_shape_def map_of_shape)
  then obtain g where g: "map_of (st_fields create_empty_tree) k = Some g" "fs_shape g = fs_shape f"
    by (cases "map_of (st_fields create_empty_tree) k") auto
  from g(1) obtain s where "g = create_empty_field_stats k s"
    by (auto simp: create_empty_tree_def dest!: map_of_SomeD)
  with empty_field_subfields_distinct [of k s] have "subs_distinct g"
    by (simp add: subs_distinct_def split: option.splits)
  with g(2) show ?thesis by (rule subs_distinct_shape)
qed

lemma schema_fields_keys: "fields_shape d = schema_shape \<Longrightarrow> map fst d = field_names"
  by (metis fields_shape_keys schema_keys)

lemma schema_fields_nonempty: "fields_shape d = schema_shape \<Longrightarrow> d \<noteq> []"
  using schema_fields_keys [of d] field_names_nonempty by auto

lemma merge_fields_unfold:
  assumes "fields_shape d1 = schema_shape" "fields_shape d2 = schema_shape"
  shows "merge_fields d1 d2 =
           map (\<lambda>field. (field, merge_field (merged_total d1 d2) (map_of d1 field) (map_of d2 field)))
               field_names"
  using schema_fields_nonempty [OF assms(1)] schema_fields_nonempty [OF assms(2)]
    schema_fields_keys [OF assms(1)] schema_fields_keys [OF assms(2)]
  by (simp add: merge_fields_def union_keys_same)

lemma merge_fields_shape:
  assumes "fields_shape d1 = schema_shape" "fields_shape d2 = schema_shape"
  shows "fields_shape (merge_fields d1 d2) = schema_shape"
proof -
  let ?t = "merged_total d1 d2"
  have keys: "map fst d1 = field_names" "map fst d2 = field_names"
    using assms by (simp_all add: schema_fields_keys)
  have dist: "distinct (map fst d1)" using keys field_names_distinct by simp
  have eq: "map (\<lambda>(n, x). (n, fs_shape x)) d1 = map (\<lambda>(n, x). (n, fs_shape x)) d2"
    using assms by (simp add: fields_shape_def)
  have "map (\<lambda>(n, x). (n, fs_shape x))
          (map (\<lambda>k. (k, merge_field ?t (map_of d1 k) (map_of d2 k))) (union_keys d1 d2))
        = map (\<lambda>(n, x). (n, fs_shape x)) d1"
    using eq dist
  proof (rule merged_shape)
    fix k x y assume "map_of d1 k = Some x" "fs_shape x = fs_shape y"
    then show "fs_shape (merge_field ?t (Some x) (Some y)) = fs_shape x"
      using merge_field_shape schema_subs_distinct [OF assms(1)] by blast
  qed
  then have "fields_shape (merge_fields d1 d2) = fields_shape d1"
    using merge_fields_unfold [OF assms] keys
    by (simp add: fields_shape_def union_keys_same)
  with assms(1) show ?thesis by simp
qed

lemma identifier_is_field: "''identifier'' \<in> set field_names"
  by (simp add: field_names_def FIELD_STATUS_def)

lemma tree_ok_bound:
  assumes "tree_ok t" "map_of (st_fields t) k = Some f"
  shows "fs_count f + fs_missing f \<le> st_count t"
  using assms by (auto simp: tree_ok_def list_all_iff dest!: map_of_SomeD)

lemma tree_ok_lookup:
  assumes "tree_ok t" "k \<in> set field_names"
  shows "\<exists>f. map_of (st_fields t) k = Some f"
  using assms schema_fields_keys [of "st_fields t"] map_of_key_some [of k "st_fields t"]
  by (auto simp: tree_ok_def)

lemma merged_total_ok:
  assumes "tree_ok a" "tree_ok b"
  shows "merged_total (st_fields a) (st_fields b) = st_count a + st_count b"
proof -
  let ?g = "\<lambda>field.
      fs_get_count (map_of (st_fields a) field) + fs_get_missing (map_of (st_fields a) field) +
      fs_get_count (map_of (st_fields b) field) + fs_get_missing (map_of (st_fields b) field)"
  have keys: "map fst (st_fields a) = field_names" "map fst (st_fields b) = field_names"
    using assms by (simp_all add: tree_ok_def schema_fields_keys)
  have total: "merged_total (st_fields a) (st_fields b) = Max (?g ` set field_names)"
    using keys by (simp add: merged_total_def union_keys_same)
  have "Max (?g ` set field_names) = st_count a + st_count b"
  proof (rule Max_eqI)
    show "finite (?g ` set field_names)" by simp
  next
    fix y assume "y \<in> ?g ` set field_names"
    then obtain k where k: "k \<in> set field_names" "y = ?g k" by auto
    from tree_ok_lookup [OF assms(1) k(1)] obtain fa where fa: "map_of (st_fields a) k = Some fa" ..
    from tree_ok_lookup [OF assms(2) k(1)] obtain fb where fb: "map_of (st_fields b) k = Some fb" ..
    from tree_ok_bound [OF assms(1) fa] tree_ok_bound [OF assms(2) fb] k(2) fa fb
    show "y \<le> st_count a + st_count b"
      by (simp add: fs_get_count_def fs_get_missing_def)
  next
    have "?g ''identifier'' = st_count a + st_count b"
      using assms by (auto simp: tree_ok_def fs_get_count_def fs_get_missing_def split: option.splits)
    then show "st_count a + st_count b \<in> ?g ` set field_names"
      using identifier_is_field by (metis (no_types, lifting) image_eqI)
  qed
  with total show ?thesis by simp
qed

lemma merge_field_sum: "fs_count (merge_field t x y) + fs_missing (merge_field t x y) = t"
  by (simp add: merge_field_def Let_def)

lemma merge_type_stats_ok:
  assumes "tree_ok a" "tree_ok b"
  shows "tree_ok (merge_type_stats (Some a) (Some b))"
proof -
  have sh: "fields_shape (st_fields a) = schema_shape" "fields_shape (st_fields b) = schema_shape"
    using assms by (simp_all add: tree_ok_def)
  note unfold = merge_fields_unfold [OF sh] merged_total_ok [OF assms]
  have "fields_shape (merge_fields (st_fields a) (st_fields b)) = schema_shape"
    by (rule merge_fields_shape [OF sh])
  moreover have "list_all (\<lambda>(n, f). fs_count f + fs_missing f \<le> st_count a + st_count b)
                   (merge_fields (st_fields a) (st_fields b))"
    by (simp add: unfold list_all_iff merge_field_sum)
  moreover have "map_of (merge_fields (st_fields a) (st_fields b)) ''identifier''
      = Some (merge_field (st_count a + st_count b) (map_of (st_fields a) ''identifier'')
                (map_of (st_fields b) ''identifier''))"
    using identifier_is_field by (simp add: unfold map_of_map_keys)
  ultimately show ?thesis
    by (simp add: tree_ok_def merge_type_stats_def st_get_count_def st_get_fields_def Let_def
        merge_field_sum)
qed

lemma entity_ok_lookup:
  assumes "entity_ok e" "rt \<in> set resourceTypeGeneral_values"
  shows "\<exists>t. map_of (byResourceType e) rt = Some t \<and> tree_ok t"
proof -
  from assms have "rt \<in> set (map fst (byResourceType e))" by (simp add: entity_ok_def)
  then obtain t where t: "map_of (byResourceType e) rt = Some t" using map_of_key_some by fastforce
  then have "(rt, t) \<in> set (byResourceType e)" by (rule map_of_SomeD)
  with assms(1) have "tree_ok t" by (auto simp: entity_ok_def list_all_iff)
  with t show ?thesis by simp
qed

lemma merge_stats_ok:
  assumes "entity_ok a" "entity_ok b"
  shows "entity_ok (merge_stats a b)"
proof -
  have keys: "map fst (byResourceType a) = resourceTypeGeneral_values"
    "map fst (byResourceType b) = resourceTypeGeneral_values"
    using assms by (simp_all add: entity_ok_def)
  have u: "union_keys (byResourceType a) (byResourceType b) = resourceTypeGeneral_values"
    using keys by (simp add: union_keys_same)
  have "tree_ok (merge_type_stats (map_of (byResourceType a) rt) (map_of (byResourceType b) rt))"
    if "rt \<in> set resourceTypeGeneral_values" for rt
    using entity_ok_lookup [OF assms(1) that] entity_ok_lookup [OF assms(2) that]
    by (auto intro: merge_type_stats_ok)
  then show ?thesis
    using assms
    by (auto simp: entity_ok_def merge_stats_def u comp_def list_all_iff intro: merge_type_stats_ok)
qed

section \<open>The record updater keeps the invariants\<close>

lemma tree_ok_alt:
  "tree_ok t \<longleftrightarrow>
     fields_shape (st_fields t) = schema_shape \<and>
     (\<forall>k f. map_of (st_fields t) k = Some f \<longrightarrow> fs_count f + fs_missing f \<le> st_count t) \<and>
     (\<exists>f. map_of (st_fields t) ''identifier'' = Some f \<and> fs_count f + fs_missing f = st_count t)"
proof (cases "fields_shape (st_fields t) = schema_shape")
  case True
  then have "distinct (map fst (st_fields t))"
    using schema_fields_keys field_names_distinct by simp
  then have iff: "(map_of (st_fields t) k = Some f) = ((k, f) \<in> set (st_fields t))" for k f
    by (rule map_of_eq_Some_iff)
  have A: "list_all (\<lambda>(n, f). fs_count f + fs_missing f \<le> st_count t) (st_fields t) \<longleftrightarrow>
           (\<forall>k f. map_of (st_fields t) k = Some f \<longrightarrow> fs_count f + fs_missing f \<le> st_count t)"
    by (auto simp: list_all_iff iff)
  have B: "(case map_of (st_fields t) ''identifier'' of
              Some f \<Rightarrow> fs_count f + fs_missing f = st_count t | None \<Rightarrow> False) \<longleftrightarrow>
           (\<exists>f. map_of (st_fields t) ''identifier'' = Some f \<and> fs_count f + fs_missing f = st_count t)"
    by (cases "map_of (st_fields t) ''identifier''") auto
  show ?thesis unfolding tree_ok_def A B ..
next
  case False
  then show ?thesis by (simp add: tree_ok_def)
qed

lemma for_each_inv:
  assumes step: "\<And>x xs' s. J (x # xs') s \<Longrightarrow>
                   (case body x s of Done s' \<Rightarrow> J xs' s' | Raised e s' \<Rightarrow> I s')"
    and fin: "\<And>s. J [] s \<Longrightarrow> I s"
    and start: "J xs s"
  shows "I (state_of (for_each body xs s))"
  using start
proof (induction xs arbitrary: s)
  case Nil
  then show ?case by (simp add: fin)
next
  case (Cons x xs)
  from step [OF Cons.prems] show ?case
    by (cases "body x s") (auto intro: Cons.IH)
qed

lemma update_field_stats_facts:
  "fs_shape (update_field_stats v fs n) = fs_shape fs"
  "fs_count (update_field_stats v fs n) = fs_count fs + (if truthy v then 1 else 0)"
  "fs_missing (update_field_stats v fs n) = fs_missing fs"
  by (simp_all add: update_field_stats_def fs_shape_def)

lemma identifier_plain: "''identifier'' \<notin> set (map fst SUBFIELD_STATS)"
  by (simp add: SUBFIELD_STATS_def)

lemma field_step_missing:
  "map_of (st_fields t) n = None \<Longrightarrow> field_step rec tot n t = Raised KeyError t"
  by (simp add: field_step_def)

text \<open>What one pass of the field loop does to the statistics of its field: it returns with
  the count raised by one for a present field and \<open>missing\<close> recomputed, or it raises, in
  the subfield update of a present field, with the count raised and \<open>missing\<close> stale.\<close>

lemma field_step_fields:
  assumes "map_of (st_fields t) n = Some fs"
  shows "\<exists>fs'. state_of (field_step rec tot n t) = t\<lparr>st_fields := dict_set (st_fields t) n fs'\<rparr> \<and>
           fs_shape fs' = fs_shape fs \<and>
           fs_count fs' = fs_count fs + (if truthy (record_get rec n) then 1 else 0) \<and>
           (if returned (field_step rec tot n t)
            then fs_missing fs' = tot - fs_count fs' \<and> fs_completeness fs' = ratio (fs_count fs') tot
            else fs_missing fs' = fs_missing fs \<and> truthy (record_get rec n) \<and>
                 n \<in> set (map fst SUBFIELD_STATS))"
proof -
  let ?v = "record_get rec n"
  let ?fs1 = "update_field_stats ?v fs n"
  let ?r = "if n \<in> set (map fst SUBFIELD_STATS) \<and> truthy ?v
            then update_subfield_stats ?v n ?fs1 tot else Done ?fs1"
  have core: "fs_core (state_of ?r) = fs_core ?fs1"
    by (simp add: update_subfield_stats_core)
  have raised: "\<not> returned ?r \<Longrightarrow> truthy ?v \<and> n \<in> set (map fst SUBFIELD_STATS)"
    by (simp split: if_splits)
  show ?thesis
  proof (cases ?r)
    case (Done fs2)
    with core have "fs_core fs2 = fs_core ?fs1" by simp
    then have "fs_shape fs2 = fs_shape fs" "fs_count fs2 = fs_count fs + (if truthy ?v then 1 else 0)"
      by (simp_all add: fs_core_def update_field_stats_facts)
    with Done assms show ?thesis
      by (intro exI [of _ "fs2\<lparr>fs_missing := tot - fs_count fs2,
                                 fs_completeness := ratio (fs_count fs2) tot\<rparr>"])
         (simp add: field_step_def Let_def fs_shape_def)
  next
    case (Raised e fs2)
    with core have "fs_core fs2 = fs_core ?fs1" by simp
    then have "fs_shape fs2 = fs_shape fs" "fs_count fs2 = fs_count fs + (if truthy ?v then 1 else 0)"
      "fs_missing fs2 = fs_missing fs"
      by (simp_all add: fs_core_def update_field_stats_facts)
    moreover from Raised raised have "truthy ?v \<and> n \<in> set (map fst SUBFIELD_STATS)" by simp
    ultimately show ?thesis using Raised assms
      by (intro exI [of _ fs2]) (simp add: field_step_def Let_def)
  qed
qed

lemma fields_shape_dict_set:
  "map_of d k = Some f \<Longrightarrow> fs_shape f' = fs_shape f \<Longrightarrow> fields_shape (dict_set d k f') = fields_shape d"
  unfolding fields_shape_def by (rule dict_set_map_same)

lemma field_names_split:
  "field_names = ''identifier'' # tl field_names" "''identifier'' \<notin> set (tl field_names)"
  "distinct (tl field_names)"
  by (simp_all add: field_names_def FIELD_STATUS_def)

lemma loop_inv_lookup:
  assumes "loop_inv tot names t" "n \<in> set names"
  shows "\<exists>fs. map_of (st_fields t) n = Some fs"
proof -
  from assms have "n \<in> set (map fst (st_fields t))"
    using schema_fields_keys [of "st_fields t"] by (auto simp: loop_inv_def)
  then show ?thesis using map_of_key_some by fastforce
qed

lemma loop_inv_step:
  assumes inv: "loop_inv tot (n # names) t"
  shows "case field_step rec tot n t of
           Done t' \<Rightarrow> loop_inv tot names t'
         | Raised e t' \<Rightarrow> loop_inv tot [] t'"
proof -
  from loop_inv_lookup [OF inv, of n] obtain fs where fs: "map_of (st_fields t) n = Some fs" by auto
  from inv have n: "n \<noteq> ''identifier''" "n \<notin> set names" by (auto simp: loop_inv_def)
  from inv have "\<forall>k f. map_of (st_fields t) k = Some f \<longrightarrow>
         fs_count f + fs_missing f \<le> (if k \<in> set (n # names) then tot - 1 else tot)"
    by (simp add: loop_inv_def)
  from this [rule_format, OF fs] have bound: "fs_count fs + fs_missing fs \<le> tot - 1" by simp
  from field_step_fields [OF fs, of rec tot]
  obtain fs' where st: "state_of (field_step rec tot n t) = t\<lparr>st_fields := dict_set (st_fields t) n fs'\<rparr>"
    and sh: "fs_shape fs' = fs_shape fs"
    and cnt: "fs_count fs' = fs_count fs + (if truthy (record_get rec n) then 1 else 0)"
    and miss: "if returned (field_step rec tot n t)
               then fs_missing fs' = tot - fs_count fs' \<and> fs_completeness fs' = ratio (fs_count fs') tot
               else fs_missing fs' = fs_missing fs \<and> truthy (record_get rec n) \<and>
                    n \<in> set (map fst SUBFIELD_STATS)"
    by blast
  let ?t' = "t\<lparr>st_fields := dict_set (st_fields t) n fs'\<rparr>"
  have le: "fs_count fs' + fs_missing fs' \<le> tot"
    using miss cnt bound by (auto split: if_splits)
  have shape: "fields_shape (st_fields ?t') = schema_shape"
    using inv fields_shape_dict_set [OF fs sh] by (simp add: loop_inv_def)
  have old: "fs_count f + fs_missing f \<le> (if k \<in> set (n # names) then tot - 1 else tot)"
    if "map_of (st_fields t) k = Some f" for k f
    using inv that by (simp add: loop_inv_def)
  have new: "fs_count f + fs_missing f \<le> (if k \<in> set names then tot - 1 else tot)"
    if "map_of (st_fields ?t') k = Some f" for k f
  proof (cases "k = n")
    case True
    with that have "f = fs'" by (simp add: map_of_dict_set_eq)
    with le n True show ?thesis by simp
  next
    case False
    with that have "map_of (st_fields t) k = Some f" by (simp add: map_of_dict_set_eq)
    from old [OF this] False show ?thesis by (auto split: if_splits)
  qed
  have new': "fs_count f + fs_missing f \<le> (if k \<in> set [] then tot - 1 else tot)"
    if "map_of (st_fields ?t') k = Some f" for k f
    using new [OF that] by (auto split: if_splits)
  have ident: "\<exists>f. map_of (st_fields ?t') ''identifier'' = Some f \<and> fs_count f + fs_missing f = tot"
    using inv n by (auto simp: loop_inv_def map_of_dict_set_eq)
  have cnt': "st_count ?t' = tot" using inv by (simp add: loop_inv_def)
  have rest: "''identifier'' \<notin> set names \<and> distinct names \<and> set names \<subseteq> set field_names"
    using inv by (auto simp: loop_inv_def)
  have done_inv: "loop_inv tot names ?t'"
    unfolding loop_inv_def using cnt' shape new ident rest by blast
  have raised_inv: "loop_inv tot [] ?t'"
  proof -
    have e: "''identifier'' \<notin> set [] \<and> distinct ([]::string list) \<and> set [] \<subseteq> set field_names"
      by simp
    show ?thesis unfolding loop_inv_def using cnt' shape new' ident e by blast
  qed
  show ?thesis
    using st done_inv raised_inv by (cases "field_step rec tot n t") auto
qed

lemma loop_inv_final: "loop_inv tot [] t \<Longrightarrow> tree_ok t \<and> st_count t = tot"
  by (auto simp: loop_inv_def tree_ok_alt)

lemma field_loop_ok:
  assumes "tree_ok t"
  shows "tree_ok (state_of (for_each (field_step rec (st_count t + 1)) field_names
                     (t\<lparr>st_count := st_count t + 1\<rparr>))) \<and>
         st_count (state_of (for_each (field_step rec (st_count t + 1)) field_names
                     (t\<lparr>st_count := st_count t + 1\<rparr>))) = st_count t + 1"
proof -
  let ?tot = "st_count t + 1"
  let ?t1 = "t\<lparr>st_count := ?tot\<rparr>"
  let ?I = "\<lambda>t'. tree_ok t' \<and> st_count t' = ?tot"
  from assms obtain f0 where f0: "map_of (st_fields ?t1) ''identifier'' = Some f0"
    by (auto simp: tree_ok_alt)
  from field_step_fields [OF f0, of rec ?tot] identifier_plain
  obtain f0' where st: "state_of (field_step rec ?tot ''identifier'' ?t1)
                          = ?t1\<lparr>st_fields := dict_set (st_fields ?t1) ''identifier'' f0'\<rparr>"
    and sh: "fs_shape f0' = fs_shape f0"
    and ret: "returned (field_step rec ?tot ''identifier'' ?t1)"
    and sum: "fs_count f0' + fs_missing f0' = ?tot"
    by (auto split: if_splits)
  let ?t2 = "?t1\<lparr>st_fields := dict_set (st_fields ?t1) ''identifier'' f0'\<rparr>"
  from st ret have step: "field_step rec ?tot ''identifier'' ?t1 = Done ?t2"
    by (cases "field_step rec ?tot ''identifier'' ?t1") auto
  have shape2: "fields_shape (st_fields ?t2) = schema_shape"
    using assms fields_shape_dict_set [OF f0 sh] by (simp add: tree_ok_alt)
  have b2: "fs_count f + fs_missing f \<le> (if k \<in> set (tl field_names) then ?tot - 1 else ?tot)"
    if "map_of (st_fields ?t2) k = Some f" for k f
  proof (cases "k = ''identifier''")
    case True
    with that have "f = f0'" by (simp add: map_of_dict_set_eq)
    with sum True field_names_split(2) show ?thesis by simp
  next
    case False
    with that have "map_of (st_fields t) k = Some f" by (simp add: map_of_dict_set_eq)
    with assms have "fs_count f + fs_missing f \<le> st_count t" by (simp add: tree_ok_alt)
    then show ?thesis by simp
  qed
  have ident2: "\<exists>f. map_of (st_fields ?t2) ''identifier'' = Some f \<and> fs_count f + fs_missing f = ?tot"
    using sum by (simp add: map_of_dict_set_eq)
  have sub: "set (tl field_names) \<subseteq> set field_names"
    by (metis list.set_sel(2) field_names_nonempty subsetI)
  have cnt2: "st_count ?t2 = ?tot" by simp
  have start: "loop_inv ?tot (tl field_names) ?t2"
    unfolding loop_inv_def using cnt2 shape2 b2 ident2 field_names_split(2,3) sub by blast
  have "?I (state_of (for_each (field_step rec ?tot) (tl field_names) ?t2))"
  proof (rule for_each_inv [where J = "\<lambda>names t'. loop_inv ?tot names t'"
                               and I = "\<lambda>t'. loop_inv ?tot [] t'", THEN loop_inv_final])
    show "case field_step rec ?tot x s of Done s' \<Rightarrow> loop_inv ?tot xs' s'
          | Raised e s' \<Rightarrow> loop_inv ?tot [] s'"
      if "loop_inv ?tot (x # xs') s" for x xs' s
      using that by (rule loop_inv_step)
    show "loop_inv ?tot [] s" if "loop_inv ?tot [] s" for s by (rule that)
    show "loop_inv ?tot (tl field_names) ?t2" by (rule start)
  qed
  moreover have "for_each (field_step rec ?tot) field_names ?t1
                   = for_each (field_step rec ?tot) (tl field_names) ?t2"
    using step by (subst field_names_split(1)) simp
  ultimately show ?thesis by simp
qed

lemma update_tree_ok:
  assumes "tree_ok t"
  shows "tree_ok (state_of (update_tree rec t))"
proof -
  let ?r = "for_each (field_step rec (st_count t + 1)) field_names (t\<lparr>st_count := st_count t + 1\<rparr>)"
  from field_loop_ok [OF assms, of rec] have ok: "tree_ok (state_of ?r)" by simp
  have cat: "tree_ok (t'\<lparr>st_categories := c\<rparr>) = tree_ok t'" for t' c
    by (simp add: tree_ok_alt)
  show ?thesis
    using ok by (cases ?r) (simp_all add: update_tree_def Let_def cat field_names_def)
qed

lemma list_all_dict_set:
  "list_all (\<lambda>(k, v). P v) d \<Longrightarrow> P v' \<Longrightarrow> list_all (\<lambda>(k, v). P v) (dict_set d k' v')"
  by (induction d) auto

lemma fold_record_ok:
  assumes "entity_ok e"
  shows "entity_ok (fold_record e rec)"
proof -
  have sum_ok: "tree_ok (state_of (update_tree rec (summary e)))"
    using assms by (simp add: entity_ok_def update_tree_ok)
  have keep: "entity_ok (e\<lparr>summary := s\<rparr>)" if "tree_ok s" for s
    using assms that by (simp add: entity_ok_def)
  have types: "entity_ok (e'\<lparr>byResourceType := dict_set (byResourceType e') k ts\<rparr>)"
    if "entity_ok e'" "map_of (byResourceType e') k = Some t0" "tree_ok ts" for e' k t0 ts
    using that by (simp add: entity_ok_def dict_set_keys list_all_dict_set)
  have sub: "tree_ok t0" if "entity_ok e'" "map_of (byResourceType e') k = Some t0" for e' k t0
    using that by (auto simp: entity_ok_def list_all_iff dest!: map_of_SomeD)
  show ?thesis
  proof (cases "update_tree rec (summary e)")
    case (Raised ex s)
    with sum_ok show ?thesis
      by (simp add: fold_record_def update_stats_single_record_def keep)
  next
    case (Done s)
    with sum_ok have e1: "entity_ok (e\<lparr>summary := s\<rparr>)" by (simp add: keep)
    show ?thesis
    proof (cases "resource_type_of rec")
      case (JStr k)
      show ?thesis
      proof (cases "map_of (byResourceType (e\<lparr>summary := s\<rparr>)) k")
        case None
        with Done JStr e1 show ?thesis
          by (simp add: fold_record_def update_stats_single_record_def Let_def)
      next
        case (Some t0)
        from sub [OF e1 Some] have "tree_ok (state_of (update_tree rec t0))" by (rule update_tree_ok)
        with types [OF e1 Some] Done JStr Some e1 show ?thesis
          by (cases "update_tree rec t0")
             (simp_all add: fold_record_def update_stats_single_record_def Let_def)
      qed
    qed (use Done e1 in \<open>simp_all add: fold_record_def update_stats_single_record_def Let_def\<close>)
  qed
qed

lemma built_ok: "built e \<Longrightarrow> entity_ok e"
  by (induction rule: built.induct) (simp_all add: empty_stats_ok fold_record_ok merge_stats_ok)

section \<open>Merging built statistics\<close>

lemma union_keys_set: "set (union_keys d1 d2) = set (map fst d1) \<union> set (map fst d2)"
  by (auto simp: union_keys_def)

lemma get_int_absent: "k \<notin> set (map fst d) \<Longrightarrow> get_int d k = 0"
  by (simp add: get_int_def map_of_eq_None_iff [THEN iffD2])

lemma get_int_merge_values:
  "get_int (merge_values v1 v2) v = get_int v1 v + get_int v2 v"
proof (cases "v \<in> set (union_keys v1 v2)")
  case True
  then show ?thesis by (simp add: merge_values_def get_int_def map_of_map_keys)
next
  case False
  then have "v \<notin> set (map fst v1)" "v \<notin> set (map fst v2)" by (simp_all add: union_keys_set)
  moreover from False have "v \<notin> set (map fst (merge_values v1 v2))" by (simp add: merge_values_keys)
  ultimately show ?thesis by (simp add: get_int_absent)
qed

lemma merge_subfield_spec: "spec_merged_subfield sa sb (merge_subfield t (Some sa) (Some sb))"
  by (cases "sf_values sa"; cases "sf_values sb")
     (simp_all add: spec_merged_subfield_def merge_subfield_def sf_get_count_def
       sf_get_instances_def sf_get_values_def or_empty_def Let_def get_int_merge_values
       get_int_absent)

lemma merge_field_subfields:
  assumes "map_of (or_empty (fs_subfields fa)) subfield = Some sa"
    "map_of (or_empty (fs_subfields fb)) subfield = Some sb"
  shows "map_of (or_empty (fs_subfields (merge_field t (Some fa) (Some fb)))) subfield
           = Some (merge_subfield t (Some sa) (Some sb))"
proof -
  from assms(1) obtain subs where subs: "fs_subfields fa = Some subs" "map_of subs subfield = Some sa"
    by (cases "fs_subfields fa") (auto simp: or_empty_def)
  then have "subfield \<in> set (union_keys subs (or_empty (fs_subfields fb)))"
    by (auto simp: union_keys_set dest: map_of_SomeD intro: rev_image_eqI)
  with subs assms(2) show ?thesis
    by (simp add: merge_field_def fs_get_subfields_def or_empty_def Let_def merge_subfields_def
        map_of_map_keys)
qed

lemma merge_field_spec:
  assumes "fs_fieldStatus fa = fs_fieldStatus fb"
  shows "spec_merged_field t fa fb (merge_field t (Some fa) (Some fb))"
  unfolding spec_merged_field_def
proof (intro conjI allI impI)
  fix subfield sa sb
  assume "map_of (or_empty (fs_subfields fa)) subfield = Some sa"
    "map_of (or_empty (fs_subfields fb)) subfield = Some sb"
  then show "\<exists>sm. map_of (or_empty (fs_subfields (merge_field t (Some fa) (Some fb)))) subfield = Some sm \<and>
               spec_merged_subfield sa sb sm"
    by (simp add: merge_field_subfields merge_subfield_spec)
qed (simp_all add: merge_field_def fs_get_count_def fs_get_instances_def
      fieldStatus_same [OF assms] Let_def assms)

lemma tree_ok_status:
  assumes "tree_ok a" "tree_ok b" "map_of (st_fields a) k = Some fa" "map_of (st_fields b) k = Some fb"
  shows "fs_shape fa = fs_shape fb"
proof -
  from assms(1,2) have "fields_shape (st_fields a) = fields_shape (st_fields b)"
    by (simp add: tree_ok_def)
  from arg_cong [OF this, of "\<lambda>d. map_of d k"] assms(3,4) show ?thesis
    by (simp add: fields_shape_def map_of_shape)
qed

lemma merge_type_stats_spec:
  assumes "tree_ok a" "tree_ok b"
  shows "spec_merged_tree a b (merge_type_stats (Some a) (Some b))"
proof -
  have sh: "fields_shape (st_fields a) = schema_shape" "fields_shape (st_fields b) = schema_shape"
    using assms by (simp_all add: tree_ok_def)
  have keys: "union_keys (st_fields a) (st_fields b) = field_names"
    using sh by (simp add: schema_fields_keys union_keys_same)
  let ?m = "merge_type_stats (Some a) (Some b)"
  have cnt: "st_count ?m = st_count a + st_count b"
    by (simp add: merge_type_stats_def st_get_count_def Let_def)
  have flds: "st_fields ?m = map (\<lambda>field. (field, merge_field (st_count a + st_count b)
                                   (map_of (st_fields a) field) (map_of (st_fields b) field))) field_names"
    by (simp add: merge_type_stats_def st_get_fields_def Let_def merge_fields_unfold [OF sh]
        merged_total_ok [OF assms])
  have "\<exists>fa fb fm. map_of (st_fields a) field = Some fa \<and> map_of (st_fields b) field = Some fb \<and>
                   map_of (st_fields ?m) field = Some fm \<and> spec_merged_field (st_count ?m) fa fb fm"
    if "field \<in> set field_names" for field
  proof -
    from tree_ok_lookup [OF assms(1) that] obtain fa where fa: "map_of (st_fields a) field = Some fa" ..
    from tree_ok_lookup [OF assms(2) that] obtain fb where fb: "map_of (st_fields b) field = Some fb" ..
    from tree_ok_status [OF assms fa fb] have "fs_fieldStatus fa = fs_fieldStatus fb"
      by (simp add: fs_shape_def)
    from merge_field_spec [OF this] fa fb that show ?thesis
      by (simp add: flds cnt map_of_map_keys)
  qed
  with cnt keys show ?thesis by (simp add: spec_merged_tree_def)
qed

text \<open>
  Claim C2. For statistics \<open>a\<close> and \<open>b\<close> built from the schema (the factory's statistics,
  records folded in, merges), \<open>merge_stats a b\<close> has as summary the merge of the summaries in
  the sense of the specification: the record counts added, and for every field name of
  either side the counts and the instances added, \<open>missing\<close> the merged record count minus the
  merged count, \<open>completeness\<close> their ratio, the status of the sides, the subfield counts and
  instances added and every value counter added. The same holds for the tree of every
  resource type of either side.
\<close>

theorem merge_stats_sums:
  assumes "built a" "built b"
  shows "spec_merged_tree (summary a) (summary b) (summary (merge_stats a b)) \<and>
         (\<forall>rt \<in> set (union_keys (byResourceType a) (byResourceType b)).
            \<exists>ta tb tm. map_of (byResourceType a) rt = Some ta \<and>
                       map_of (byResourceType b) rt = Some tb \<and>
                       map_of (byResourceType (merge_stats a b)) rt = Some tm \<and>
                       spec_merged_tree ta tb tm)"
proof -
  have ok: "entity_ok a" "entity_ok b" using assms by (simp_all add: built_ok)
  have keys: "union_keys (byResourceType a) (byResourceType b) = resourceTypeGeneral_values"
    using ok by (simp add: entity_ok_def union_keys_same)
  have "spec_merged_tree (summary a) (summary b) (summary (merge_stats a b))"
    using ok by (simp add: merge_stats_def entity_ok_def merge_type_stats_spec)
  moreover have "\<exists>ta tb tm. map_of (byResourceType a) rt = Some ta \<and>
                       map_of (byResourceType b) rt = Some tb \<and>
                       map_of (byResourceType (merge_stats a b)) rt = Some tm \<and>
                       spec_merged_tree ta tb tm"
    if "rt \<in> set resourceTypeGeneral_values" for rt
  proof -
    from entity_ok_lookup [OF ok(1) that] obtain ta
      where ta: "map_of (byResourceType a) rt = Some ta" "tree_ok ta" by blast
    from entity_ok_lookup [OF ok(2) that] obtain tb
      where tb: "map_of (byResourceType b) rt = Some tb" "tree_ok tb" by blast
    from merge_type_stats_spec [OF ta(2) tb(2)] ta(1) tb(1) that show ?thesis
      by (simp add: merge_stats_def keys map_of_map_keys)
  qed
  ultimately show ?thesis by (simp add: keys)
qed

lemma field_step_count: "st_count (state_of (field_step rec tot n t)) = st_count t"
  by (cases "map_of (st_fields t) n")
     (auto simp: field_step_def Let_def split: outcome.splits)

lemma update_tree_count: "st_count (state_of (update_tree rec t)) = st_count t + 1"
proof -
  have "st_count (state_of (for_each (field_step rec tot) names t')) = st_count t'" for tot names t'
    by (rule for_each_keeps [where p = st_count]) (rule field_step_count)
  from this [of "st_count t + 1" "map fst FIELD_STATUS" "t\<lparr>st_count := st_count t + 1\<rparr>"]
  show ?thesis
    by (cases "for_each (field_step rec (st_count t + 1)) (map fst FIELD_STATUS)
                 (t\<lparr>st_count := st_count t + 1\<rparr>)")
       (simp_all add: update_tree_def Let_def)
qed

lemma fold_record_count: "st_count (summary (fold_record e rec)) = st_count (summary e) + 1"
proof -
  from update_tree_count [of rec "summary e"] show ?thesis
    by (cases "update_tree rec (summary e)")
       (auto simp: fold_record_def update_stats_single_record_def Let_def
         split: json.splits option.splits outcome.splits)
qed

theorem merge_stats_sums_witness:
  "built (fold_record create_empty_stats one_creator) \<and> built create_empty_stats \<and>
   st_count (summary (merge_stats (fold_record create_empty_stats one_creator) create_empty_stats)) = 1"
proof -
  have a: "built (fold_record create_empty_stats one_creator)"
    by (intro built.intros)
  have b: "built create_empty_stats" by (rule built_empty)
  from merge_stats_sums [OF a b]
  have "st_count (summary (merge_stats (fold_record create_empty_stats one_creator) create_empty_stats))
          = st_count (summary (fold_record create_empty_stats one_creator))
            + st_count (summary create_empty_stats)"
    by (simp add: spec_merged_tree_def)
  with a b show ?thesis by (simp add: fold_record_count empty_summary_count)
qed

section \<open>A record that lacks a field leaves the subfield ratios of the field stale\<close>

lemma summary_fold_record:
  "summary (fold_record e rec) = state_of (update_tree rec (summary e))"
  by (cases "update_tree rec (summary e)")
     (auto simp: fold_record_def update_stats_single_record_def Let_def
       split: json.splits option.splits outcome.splits)

lemma field_step_absent:
  assumes "\<not> truthy (record_get rec k)"
  shows "map_option fs_subfields (map_of (st_fields (state_of (field_step rec tot n t))) k)
           = map_option fs_subfields (map_of (st_fields t) k)"
proof (cases "map_of (st_fields t) n")
  case None
  then show ?thesis by (simp add: field_step_missing)
next
  case (Some fs)
  show ?thesis
  proof (cases "n = k")
    case True
    with Some assms show ?thesis
      by (simp add: field_step_def Let_def update_field_stats_def map_of_dict_set_eq)
  next
    case False
    from field_step_fields [OF Some, of rec tot] obtain fs'
      where "state_of (field_step rec tot n t) = t\<lparr>st_fields := dict_set (st_fields t) n fs'\<rparr>"
      by blast
    with False show ?thesis by (simp add: map_of_dict_set_eq)
  qed
qed

lemma update_tree_absent:
  assumes "\<not> truthy (record_get rec k)"
  shows "subfield_of (state_of (update_tree rec t)) k subfield = subfield_of t k subfield"
proof -
  let ?p = "\<lambda>t. map_option fs_subfields (map_of (st_fields t) k)"
  let ?r = "for_each (field_step rec (st_count t + 1)) (map fst FIELD_STATUS)
              (t\<lparr>st_count := st_count t + 1\<rparr>)"
  have "?p (state_of ?r) = ?p (t\<lparr>st_count := st_count t + 1\<rparr>)"
    by (rule for_each_keeps [where p = ?p]) (rule field_step_absent [OF assms])
  then have "?p (state_of (update_tree rec t)) = ?p t"
    by (cases ?r) (simp_all add: update_tree_def Let_def)
  then show ?thesis
    by (cases "map_of (st_fields t) k"; cases "map_of (st_fields (state_of (update_tree rec t))) k")
       (auto simp: subfield_of_def)
qed

lemma empty_creators_nameType:
  "subfield_of create_empty_tree ''creators'' ''nameType''
     = Some (empty_subfield_stats (Some [(''Personal'', 0), (''Organizational'', 0)]))"
  by (simp add: subfield_of_def create_empty_tree_def FIELD_STATUS_def create_empty_field_stats_def
      SUBFIELD_STATS_def creators_config_def or_empty_def zero_values_def)

lemma doi_only_creators: "\<not> truthy (record_get doi_only ''creators'')"
  by (simp add: record_get_def doi_only_def)

text \<open>
  Claim C1 at a failing input. One record that carries only a DOI is folded into the
  factory's statistics: the summary then counts one record, while the \<open>nameType\<close> subfield of
  \<open>creators\<close> still has count 0 and missing 0, so \<open>count + missing\<close> is not the record count.
\<close>

theorem stale_subfield_after_update:
  "st_count (summary (fold_record create_empty_stats doi_only)) = 1 \<and>
   map_option (\<lambda>s. (sf_count s, sf_missing s))
     (subfield_of (summary (fold_record create_empty_stats doi_only)) ''creators'' ''nameType'')
     = Some (0, 0)"
  by (simp add: fold_record_count empty_summary_count summary_fold_record
      update_tree_absent [OF doi_only_creators] create_empty_stats_def empty_creators_nameType
      empty_subfield_stats_def update_tree_count empty_tree_count)

section \<open>Merging with the empty statistics changes stale statistics\<close>

lemma merge_type_stats_fields:
  assumes "tree_ok a" "tree_ok b"
  shows "st_fields (merge_type_stats (Some a) (Some b)) =
           map (\<lambda>field. (field, merge_field (st_count a + st_count b)
                                   (map_of (st_fields a) field) (map_of (st_fields b) field)))
               field_names"
proof -
  have sh: "fields_shape (st_fields a) = schema_shape" "fields_shape (st_fields b) = schema_shape"
    using assms by (simp_all add: tree_ok_def)
  show ?thesis
    by (simp add: merge_type_stats_def st_get_fields_def Let_def merge_fields_unfold [OF sh]
        merged_total_ok [OF assms])
qed

lemma merged_subfield_of:
  assumes "tree_ok a" "tree_ok b" "subfield_of a k subfield = Some sa" "subfield_of b k subfield = Some sb"
  shows "subfield_of (merge_type_stats (Some a) (Some b)) k subfield
           = Some (merge_subfield (st_count a + st_count b) (Some sa) (Some sb))"
proof -
  from assms(3) obtain fa where fa: "map_of (st_fields a) k = Some fa"
    "map_of (or_empty (fs_subfields fa)) subfield = Some sa"
    by (cases "map_of (st_fields a) k") (auto simp: subfield_of_def)
  from assms(4) obtain fb where fb: "map_of (st_fields b) k = Some fb"
    "map_of (or_empty (fs_subfields fb)) subfield = Some sb"
    by (cases "map_of (st_fields b) k") (auto simp: subfield_of_def)
  from fa(1) assms(1) have "k \<in> set field_names"
    using schema_fields_keys [of "st_fields a"] map_of_in_keys [OF fa(1)] by (simp add: tree_ok_def)
  with fa fb show ?thesis
    by (simp add: subfield_of_def merge_type_stats_fields [OF assms(1,2)] map_of_map_keys
        merge_field_subfields)
qed

text \<open>
  Claim C8 at a failing input. The statistics \<open>t\<close> of one folded record that carries only a
  DOI, merged with the factory's empty statistics, are not \<open>t\<close>: the merge recomputes
  \<open>missing\<close> of the \<open>nameType\<close> subfield of \<open>creators\<close> to 1, which the updater had left at 0.
\<close>

theorem empty_merge_changes_stale:
  "map_option sf_missing
     (subfield_of (summary (merge_stats (fold_record create_empty_stats doi_only) create_empty_stats))
        ''creators'' ''nameType'') = Some 1 \<and>
   map_option sf_missing
     (subfield_of (summary (fold_record create_empty_stats doi_only)) ''creators'' ''nameType'')
     = Some 0 \<and>
   merge_stats (fold_record create_empty_stats doi_only) create_empty_stats
     \<noteq> fold_record create_empty_stats doi_only"
proof -
  let ?t = "fold_record create_empty_stats doi_only"
  have ok: "tree_ok (summary ?t)" "tree_ok (summary create_empty_stats)"
    using fold_record_ok [OF empty_stats_ok, of doi_only] empty_stats_ok
    by (simp_all add: entity_ok_def)
  have old: "subfield_of (summary ?t) ''creators'' ''nameType''
               = Some (empty_subfield_stats (Some [(''Personal'', 0), (''Organizational'', 0)]))"
    by (simp add: summary_fold_record update_tree_absent [OF doi_only_creators]
        create_empty_stats_def empty_creators_nameType)
  have emp: "subfield_of (summary create_empty_stats) ''creators'' ''nameType''
               = Some (empty_subfield_stats (Some [(''Personal'', 0), (''Organizational'', 0)]))"
    by (simp add: create_empty_stats_def empty_creators_nameType)
  have new: "map_option sf_missing
     (subfield_of (summary (merge_stats ?t create_empty_stats)) ''creators'' ''nameType'') = Some 1"
    by (simp add: merge_stats_def merged_subfield_of [OF ok old emp] merge_subfield_def
        sf_get_count_def empty_subfield_stats_def fold_record_count empty_summary_count Let_def)
  have stale: "map_option sf_missing (subfield_of (summary ?t) ''creators'' ''nameType'') = Some 0"
    by (simp add: old empty_subfield_stats_def)
  from new stale have "merge_stats ?t create_empty_stats \<noteq> ?t" by auto
  with new stale show ?thesis by simp
qed

section \<open>A field of unexpected shape aborts the record\<close>

lemma string_creators_raises:
  "update_subfield_stats (JStr ''Doe, Jane'') ''creators'' fs tot
     = Raised AttributeError (fs\<lparr>fs_instances := fs_instances fs + 1\<rparr>)"
  by (simp add: update_subfield_stats_def SUBFIELD_STATS_def creators_config_def single_step_def
      jget_def Let_def)

lemma string_creators_tree:
  "\<not> returned (update_tree string_creators create_empty_tree) \<and>
   map_of (st_fields (state_of (update_tree string_creators create_empty_tree))) ''titles''
     = Some (create_empty_field_stats ''titles'' ''mandatory'') \<and>
   map_option fs_count
     (map_of (st_fields (state_of (update_tree string_creators create_empty_tree))) ''creators'')
     = Some 1"
  by (simp add: update_tree_def Let_def FIELD_STATUS_def create_empty_tree_def field_step_def
      record_get_def string_creators_def update_field_stats_def SUBFIELD_STATS_def
      string_creators_raises empty_field_counts)

text \<open>
  Claim C7 at a failing input. A record whose \<open>creators\<close> is a string, with a title: the
  call raises \<open>AttributeError\<close> in the subfield update of \<open>creators\<close>. The record has been
  counted and \<open>creators\<close> has been counted, but \<open>titles\<close>, present in the record, has not: the
  rest of the record's fields are not processed.
\<close>

theorem unexpected_shape_aborts_record:
  "\<not> returned (update_stats_single_record create_empty_stats string_creators) \<and>
   truthy (record_get string_creators ''titles'') \<and>
   st_count (summary (fold_record create_empty_stats string_creators)) = 1 \<and>
   map_option fs_count
     (map_of (st_fields (summary (fold_record create_empty_stats string_creators))) ''creators'')
     = Some 1 \<and>
   map_option fs_count
     (map_of (st_fields (summary (fold_record create_empty_stats string_creators))) ''titles'')
     = Some 0"
proof -
  have "\<not> returned (update_stats_single_record create_empty_stats string_creators)"
    using string_creators_tree
    by (cases "update_tree string_creators create_empty_tree")
       (simp_all add: update_stats_single_record_def create_empty_stats_def)
  moreover have "truthy (record_get string_creators ''titles'')"
    by (simp add: record_get_def string_creators_def)
  ultimately show ?thesis
    using string_creators_tree
    by (simp add: fold_record_count empty_summary_count summary_fold_record create_empty_stats_def
        empty_field_counts update_tree_count empty_tree_count)
qed

section \<open>Categories after a record that raises\<close>

lemma string_creators_state:
  "st_categories (state_of (update_tree string_creators create_empty_tree)) = zero_categories \<and>
   st_count (state_of (update_tree string_creators create_empty_tree)) = 1 \<and>
   st_fields (state_of (update_tree string_creators create_empty_tree)) =
     (''identifier'', (create_empty_field_stats ''identifier'' ''mandatory'')
        \<lparr>fs_count := 1, fs_instances := 1, fs_completeness := 1, fs_missing := 0\<rparr>) #
     (''creators'', (create_empty_field_stats ''creators'' ''mandatory'')
        \<lparr>fs_count := 1, fs_instances := 1\<rparr>) #
     map (\<lambda>(field_name, field_status). (field_name, create_empty_field_stats field_name field_status))
         (drop 2 FIELD_STATUS)"
  by (simp add: update_tree_def Let_def FIELD_STATUS_def create_empty_tree_def field_step_def
      record_get_def string_creators_def update_field_stats_def SUBFIELD_STATS_def
      string_creators_raises empty_field_counts ratio_def)

text \<open>
  Claim C4 at a failing input. The record whose \<open>creators\<close> is a string raises in the
  subfield update of \<open>creators\<close>, before \<open>calculate_category_metrics\<close> is called (line 553)
  and before the completeness of \<open>creators\<close> is recomputed (lines 549--551). The summary then
  holds one record, \<open>identifier\<close> and \<open>creators\<close> counted once each among the six mandatory
  fields: the category formula gives 2 / (1 \<times> 6) = 1/3, the mean of the stored completeness
  of the mandatory fields is 1/6, and the stored mandatory category completeness is still 0.
\<close>

theorem stale_categories_after_raise:
  "mandatory (st_categories (summary (fold_record create_empty_stats string_creators))) = 0 \<and>
   spec_category_completeness ''mandatory''
     (st_fields (summary (fold_record create_empty_stats string_creators)))
     (st_count (summary (fold_record create_empty_stats string_creators))) = 1 / 3 \<and>
   spec_mean_completeness ''mandatory''
     (st_fields (summary (fold_record create_empty_stats string_creators))) = 1 / 6"
proof -
  have s: "summary (fold_record create_empty_stats string_creators)
             = state_of (update_tree string_creators create_empty_tree)"
    by (simp add: summary_fold_record create_empty_stats_def)
  show ?thesis
    unfolding s
    by (simp add: string_creators_state zero_categories_def spec_category_completeness_def
        spec_mean_completeness_def class_fields_def FIELD_STATUS_def empty_field_counts)
qed

section \<open>Values outside an enumeration\<close>

lemma dict_set_twice: "dict_set (dict_set d k v) k v' = dict_set d k v'"
  by (induction d) auto

lemma counted_value_effect:
  assumes "fs_subfields fs = Some subs" "map_of subs sub = Some s" "sf_values s = Some vals"
    "map_of vals k = Some c"
  shows "and_then (count_subfield sub n (fs, seen)) (on_stats (modify_subfield sub (inc_value (JStr k))))
           = Done (fs\<lparr>fs_subfields := Some (dict_set subs sub
                        (s\<lparr>sf_count := sf_count s + (if sub \<in> seen then 0 else 1),
                           sf_instances := sf_instances s + n,
                           sf_values := Some (dict_set vals k (c + 1))\<rparr>))\<rparr>,
                   insert sub seen)"
  using assms
  by (simp add: count_subfield_def on_stats_def modify_subfield_def inc_count_def add_instances_def
      inc_value_def and_then_def map_of_dict_set_eq dict_set_twice insert_absorb)

lemma cfg_contains_string: "cfg_contains (CSet vs) (JStr v) = Inr (v \<in> set vs)"
  by (simp add: cfg_contains_def)

lemma funding_value_string:
  "funding_value subfield (CSet vs) (JStr v)
     = on_stats (modify_subfield subfield (inc_value (JStr (if v \<in> set vs then v else ''Other''))))"
  by (rule ext) (simp add: funding_value_def cfg_contains_string)

text \<open>
  Claim C6, as amended. An occurrence whose value for an enumerated subfield is a string
  outside the permitted set:
  in \<open>fundingReferences\<close> it is counted under \<open>Other\<close>, with the count of the subfield raised
  if this is its first occurrence in the record and its instances raised by one;
  for \<open>contributorType\<close>, \<open>relationType\<close>, \<open>relatedIdentifierType\<close> and \<open>resourceTypeGeneral\<close> of a
  list-valued field, and for any enumerated subfield of a single composite, the loop body
  leaves the statistics as they are: no value counter, no count and no instances change,
  whether or not the enumeration has an entry \<open>Other\<close>.
\<close>

theorem unrecognized_values:
  assumes "jget item subfield JNull = Inr (JStr v)" "v \<noteq> []" "v \<notin> set vs" "subfield \<noteq> ''multiple''"
  shows "(fs_subfields fs = Some subs \<and> map_of subs subfield = Some s \<and> sf_values s = Some vals \<and>
          map_of vals ''Other'' = Some c \<longrightarrow>
            subfield_step ''fundingReferences'' field_config item (subfield, CSet vs) (fs, seen)
              = Done (fs\<lparr>fs_subfields := Some (dict_set subs subfield
                           (s\<lparr>sf_count := sf_count s + (if subfield \<in> seen then 0 else 1),
                              sf_instances := sf_instances s + 1,
                              sf_values := Some (dict_set vals ''Other'' (c + 1))\<rparr>))\<rparr>,
                      insert subfield seen)) \<and>
         (field_name \<noteq> ''fundingReferences'' \<and>
          subfield \<in> {''contributorType'', ''relationType'', ''relatedIdentifierType'',
                       ''resourceTypeGeneral''} \<longrightarrow>
            subfield_step field_name field_config item (subfield, CSet vs) st = Done st) \<and>
         single_step tot item (subfield, CSet vs) fs = Done fs"
proof (intro conjI impI)
  assume "fs_subfields fs = Some subs \<and> map_of subs subfield = Some s \<and> sf_values s = Some vals \<and>
          map_of vals ''Other'' = Some c"
  with assms counted_value_effect [of fs subs subfield s vals "''Other''" c 1 seen]
  show "subfield_step ''fundingReferences'' field_config item (subfield, CSet vs) (fs, seen)
              = Done (fs\<lparr>fs_subfields := Some (dict_set subs subfield
                           (s\<lparr>sf_count := sf_count s + (if subfield \<in> seen then 0 else 1),
                              sf_instances := sf_instances s + 1,
                              sf_values := Some (dict_set vals ''Other'' (c + 1))\<rparr>))\<rparr>,
                      insert subfield seen)"
    by (simp add: subfield_step_def funding_branch_def funding_value_string)
next
  assume "field_name \<noteq> ''fundingReferences'' \<and>
          subfield \<in> {''contributorType'', ''relationType'', ''relatedIdentifierType'',
                       ''resourceTypeGeneral''}"
  with assms show "subfield_step field_name field_config item (subfield, CSet vs) st = Done st"
    by (auto simp: subfield_step_def enumerated_branch_def cfg_contains_string)
next
  from assms show "single_step tot item (subfield, CSet vs) fs = Done fs"
    by (simp add: single_step_def single_accepts_def cfg_contains_string)
qed

lemma empty_contributors:
  "create_empty_field_stats ''contributors'' ''recommended'' =
     \<lparr>fs_count = 0, fs_instances = 0, fs_fieldStatus = Some ''recommended'',
      fs_completeness = 0, fs_missing = 0,
      fs_subfields = Some (create_subfields contributors_config contributors_config)\<rparr>"
  by (simp add: create_empty_field_stats_def SUBFIELD_STATS_def)

text \<open>Claim C6 as stated fails: a contributor of an unknown type is not counted under
  \<open>Other\<close>, although the enumeration of \<open>contributorType\<close> has that entry; the subfield is not
  counted at all.\<close>

theorem unknown_contributor_counterexample:
  "\<not> (\<forall>fs'. update_subfield_stats unknown_contributor ''contributors''
              (create_empty_field_stats ''contributors'' ''recommended'') 1 = Done fs' \<longrightarrow>
            map_option (\<lambda>s. get_int (or_empty (sf_values s)) ''Other'') (sub_of fs' ''contributorType'')
              = Some 1)"
proof -
  let ?r = "update_subfield_stats unknown_contributor ''contributors''
              (create_empty_field_stats ''contributors'' ''recommended'') 1"
  have "returned ?r \<and>
        map_option (\<lambda>s. (sf_count s, sf_instances s, get_int (or_empty (sf_values s)) ''Other''))
          (sub_of (state_of ?r) ''contributorType'') = Some (0, 0, 0)"
    by (simp add: update_subfield_stats_def unknown_contributor_def SUBFIELD_STATS_def
        empty_contributors contributors_config_def item_step_def subfield_step_def
        enumerated_branch_def nameIdentifier_branch_def affiliation_branch_def
        jget_def cfg_contains_def recompute_step_def modify_subfield_def recompute_def
        empty_subfield_stats_def zero_values_def sub_of_def or_empty_def get_int_def ratio_def)
  then show ?thesis by (cases ?r) auto
qed

theorem unrecognized_values_witness:
  "jget unknown_funder_type ''funderIdentifierType'' JNull = Inr (JStr ''GRID'') \<and>
   ''GRID'' \<notin> set [''Crossref Funder ID'', ''ROR'', ''Other''] \<and>
   map_option (\<lambda>s. (sf_count s, sf_instances s, sf_values s))
     (sub_of (fst (state_of
        (subfield_step ''fundingReferences'' fundingReferences_config unknown_funder_type
           (''funderIdentifierType'', CSet [''Crossref Funder ID'', ''ROR'', ''Other''])
           (create_empty_field_stats ''fundingReferences'' ''optional'', {}))))
       ''funderIdentifierType'')
     = Some (1, 1, Some [(''Crossref Funder ID'', 0), (''ROR'', 0), (''Other'', 1)])"
proof -
  let ?fs = "create_empty_field_stats ''fundingReferences'' ''optional''"
  let ?subs = "create_subfields fundingReferences_config fundingReferences_config"
  let ?s = "empty_subfield_stats (Some [(''Crossref Funder ID'', 0), (''ROR'', 0), (''Other'', 0)])"
  have j: "jget unknown_funder_type ''funderIdentifierType'' JNull = Inr (JStr ''GRID'')"
    by (simp add: jget_def unknown_funder_type_def)
  have subs: "fs_subfields ?fs = Some ?subs"
    by (simp add: create_empty_field_stats_def SUBFIELD_STATS_def)
  have s: "map_of ?subs ''funderIdentifierType'' = Some ?s"
    by (simp add: fundingReferences_config_def zero_values_def)
  have vals: "sf_values ?s = Some [(''Crossref Funder ID'', 0), (''ROR'', 0), (''Other'', 0)]"
    by (simp add: empty_subfield_stats_def)
  from unrecognized_values [OF j, of "[''Crossref Funder ID'', ''ROR'', ''Other'']" ?fs ?subs ?s
      "[(''Crossref Funder ID'', 0), (''ROR'', 0), (''Other'', 0)]" 0 fundingReferences_config "{}"]
    subs s vals
  have "subfield_step ''fundingReferences'' fundingReferences_config unknown_funder_type
           (''funderIdentifierType'', CSet [''Crossref Funder ID'', ''ROR'', ''Other'']) (?fs, {})
        = Done (?fs\<lparr>fs_subfields := Some (dict_set ?subs ''funderIdentifierType''
                           (?s\<lparr>sf_count := sf_count ?s + 1,
                              sf_instances := sf_instances ?s + 1,
                              sf_values := Some (dict_set [(''Crossref Funder ID'', 0), (''ROR'', 0), (''Other'', 0)] ''Other'' (0 + 1))\<rparr>))\<rparr>,
                      {''funderIdentifierType''})"
    by simp
  then show ?thesis
    using j by (simp add: sub_of_def or_empty_def map_of_dict_set_eq empty_subfield_stats_def)
qed

section \<open>Counting a subfield over the occurrences of a record\<close>

lemma sub_of_modify_other:
  "sub \<noteq> sub' \<Longrightarrow> sub_of (state_of (modify_subfield sub' g fs)) sub = sub_of fs sub"
  by (auto simp: modify_subfield_def sub_of_def or_empty_def map_of_dict_set_eq
      split: option.splits outcome.splits)

lemma sub_of_modify_same:
  assumes "\<And>s. (sf_count (state_of (g s)), sf_instances (state_of (g s))) = (sf_count s, sf_instances s)"
  shows "map_option (\<lambda>s. (sf_count s, sf_instances s)) (sub_of (state_of (modify_subfield sub' g fs)) sub)
           = map_option (\<lambda>s. (sf_count s, sf_instances s)) (sub_of fs sub)"
proof (cases "sub = sub'")
  case False
  then show ?thesis by (simp add: sub_of_modify_other)
next
  case True
  show ?thesis
  proof (cases "fs_subfields fs")
    case None
    then show ?thesis by (simp add: modify_subfield_def)
  next
    case (Some subs)
    show ?thesis
    proof (cases "map_of subs sub'")
      case None
      with Some show ?thesis by (simp add: modify_subfield_def)
    next
      case (Some s)
      with \<open>fs_subfields fs = Some subs\<close> True assms [of s] show ?thesis
        by (cases "g s")
           (auto simp: modify_subfield_def sub_of_def or_empty_def map_of_dict_set_eq)
    qed
  qed
qed

lemma inc_value_counts:
  "(sf_count (state_of (inc_value v s)), sf_instances (state_of (inc_value v s))) = (sf_count s, sf_instances s)"
  by (auto simp: inc_value_def split: option.splits json.splits)

lemma recompute_counts:
  "(sf_count (state_of (recompute t s)), sf_instances (state_of (recompute t s))) = (sf_count s, sf_instances s)"
  by (simp add: recompute_def)

lemma view_on_stats:
  assumes "\<And>fs. map_option (\<lambda>s. (sf_count s, sf_instances s)) (sub_of (state_of (f fs)) sub)
                  = map_option (\<lambda>s. (sf_count s, sf_instances s)) (sub_of fs sub)"
  shows "sub_view sub (state_of (on_stats f st)) = sub_view sub st"
  using assms [of "fst st"] by (cases "f (fst st)") (auto simp: on_stats_def sub_view_def)

lemma view_inc_value:
  "sub_view sub (state_of (on_stats (modify_subfield sub' (inc_value v)) st)) = sub_view sub st"
  by (rule view_on_stats) (rule sub_of_modify_same, rule inc_value_counts)

lemma view_other:
  assumes "sub \<noteq> sub'"
  shows "sub_view sub (state_of (on_stats (modify_subfield sub' g) st)) = sub_view sub st"
  by (rule view_on_stats) (simp add: sub_of_modify_other [OF assms])

lemma view_count_other:
  assumes "sub \<noteq> sub'"
  shows "sub_view sub (state_of (count_subfield sub' n st)) = sub_view sub st"
  unfolding count_subfield_def
proof (rule and_then_keeps [where p = "sub_view sub"])
  show "sub_view sub (state_of (if sub' \<notin> snd st
          then and_then (on_stats (modify_subfield sub' inc_count) st)
                 (\<lambda>st'. Done (fst st', insert sub' (snd st')))
          else Done st)) = sub_view sub st"
  proof (cases "sub' \<notin> snd st")
    case True
    have "sub_view sub (state_of (and_then (on_stats (modify_subfield sub' inc_count) st)
                 (\<lambda>st'. Done (fst st', insert sub' (snd st'))))) = sub_view sub st"
    proof (rule and_then_keeps [where p = "sub_view sub"])
      show "sub_view sub (state_of (on_stats (modify_subfield sub' inc_count) st)) = sub_view sub st"
        by (rule view_other [OF assms])
      show "sub_view sub (state_of (Done (fst s, insert sub' (snd s)))) = sub_view sub s" for s
        using assms by (simp add: sub_view_def)
    qed
    with True show ?thesis by simp
  qed simp
  show "sub_view sub (state_of (on_stats (modify_subfield sub' (add_instances n)) s)) = sub_view sub s" for s
    by (rule view_other [OF assms])
qed

lemma and_then_Done: "and_then r f = Done s \<longleftrightarrow> (\<exists>s1. r = Done s1 \<and> f s1 = Done s)"
  by (cases r) (auto simp: and_then_def)

lemma keeps_Done: "(\<And>s. p (state_of (f s)) = p s) \<Longrightarrow> f s1 = Done s2 \<Longrightarrow> p s2 = p s1"
  by (metis state_of.simps(1))

lemma count_subfield_effect:
  assumes "count_subfield sub n st = Done st'"
  shows "sub_view sub st' = bump n (sub_view sub st)"
proof -
  obtain fs seen where st: "st = (fs, seen)" by (cases st)
  from assms st obtain subs s where subs: "fs_subfields fs = Some subs" "map_of subs sub = Some s"
    by (cases "fs_subfields fs"; cases "map_of (or_empty (fs_subfields fs)) sub")
       (auto simp: count_subfield_def on_stats_def modify_subfield_def and_then_def or_empty_def
         split: if_splits)
  with assms st show ?thesis
    by (auto simp: count_subfield_def on_stats_def modify_subfield_def and_then_def inc_count_def
        add_instances_def sub_view_def bump_def sub_of_def or_empty_def map_of_dict_set_eq
        split: if_splits)
qed

lemma counted_then_kept:
  assumes "and_then (count_subfield sub n st) f = Done st'"
    and "\<And>s. sub_view sub (state_of (f s)) = sub_view sub s"
  shows "sub_view sub st' = bump n (sub_view sub st)"
proof -
  from assms(1) obtain s1 where s1: "count_subfield sub n st = Done s1" "f s1 = Done st'"
    by (auto simp: and_then_Done)
  from keeps_Done [of "sub_view sub" f, OF assms(2) s1(2)] count_subfield_effect [OF s1(1)]
  show ?thesis by simp
qed

lemma counted_other_kept:
  assumes "sub \<noteq> sub'" "\<And>s. sub_view sub (state_of (f s)) = sub_view sub s"
  shows "sub_view sub (state_of (and_then (count_subfield sub' n st) f)) = sub_view sub st"
  by (rule and_then_keeps [where p = "sub_view sub"]) (rule view_count_other [OF assms(1)], rule assms(2))

lemma view_identifier_step:
  assumes "sub \<noteq> ''nameIdentifierScheme''"
  shows "sub_view sub (state_of (identifier_step field_config ident st)) = sub_view sub st"
  unfolding identifier_step_def
  by (simp add: counted_other_kept [OF assms] view_inc_value split: sum.splits option.splits bool.splits)

lemma view_affiliation_scheme:
  assumes "sub \<noteq> ''affiliationIdentifierScheme''"
  shows "sub_view sub (state_of (affiliation_scheme field_config affiliation st)) = sub_view sub st"
  unfolding affiliation_scheme_def
  by (simp add: counted_other_kept [OF assms] view_inc_value
      split: sum.splits option.splits bool.splits)

lemma view_affiliation_step:
  assumes "sub \<noteq> ''affiliationIdentifier''" "sub \<noteq> ''affiliationIdentifierScheme''"
  shows "sub_view sub (state_of (affiliation_step field_config affiliation st)) = sub_view sub st"
  unfolding affiliation_step_def
  by (simp add: counted_other_kept [OF assms(1)] view_affiliation_scheme [OF assms(2)]
      split: json.splits sum.splits)

lemma view_funding_value:
  "sub_view sub (state_of (funding_value subfield expected_values v st)) = sub_view sub st"
  unfolding funding_value_def
  by (simp add: view_inc_value split: cfg.splits sum.splits)

lemma view_step_other:
  assumes "sub \<noteq> fst entry" "sub \<notin> nested_subfields"
  shows "sub_view sub (state_of (subfield_step field_name field_config item entry st)) = sub_view sub st"
proof -
  from assms(2) have n: "sub \<noteq> ''nameIdentifierScheme''" "sub \<noteq> ''affiliationIdentifier''"
    "sub \<noteq> ''affiliationIdentifierScheme''"
    by (simp_all add: nested_subfields_def)
  have loop1: "sub_view sub (state_of (for_each (identifier_step field_config) xs s)) = sub_view sub s" for xs s
    by (rule for_each_keeps [where p = "sub_view sub"]) (rule view_identifier_step [OF n(1)])
  have loop2: "sub_view sub (state_of (for_each (affiliation_step field_config) xs s)) = sub_view sub s" for xs s
    by (rule for_each_keeps [where p = "sub_view sub"]) (rule view_affiliation_step [OF n(2,3)])
  have f: "sub_view sub (state_of (funding_branch (fst entry) (snd entry) item st)) = sub_view sub st"
    unfolding funding_branch_def
    by (simp add: counted_other_kept [OF assms(1)] view_funding_value split: sum.splits)
  have t: "sub \<noteq> ''nameType'' \<Longrightarrow> sub_view sub (state_of (nameType_branch item st)) = sub_view sub st"
    unfolding nameType_branch_def
    by (simp add: counted_other_kept view_inc_value split: sum.splits)
  have i: "sub \<noteq> ''nameIdentifier'' \<Longrightarrow>
           sub_view sub (state_of (nameIdentifier_branch field_config item st)) = sub_view sub st"
    unfolding nameIdentifier_branch_def
    by (simp add: counted_other_kept loop1 split: sum.splits)
  have a: "sub \<noteq> ''affiliation'' \<Longrightarrow>
           sub_view sub (state_of (affiliation_branch field_config item st)) = sub_view sub st"
    unfolding affiliation_branch_def
    by (simp add: counted_other_kept loop2 split: sum.splits)
  have e: "sub_view sub (state_of (enumerated_branch (fst entry) (snd entry) item st)) = sub_view sub st"
    unfolding enumerated_branch_def
    by (simp add: counted_other_kept [OF assms(1)] view_inc_value split: sum.splits bool.splits)
  show ?thesis
    using assms(1) f t i a e
    by (auto simp: subfield_step_def Let_def simp del: insert_iff)
qed

lemma view_step_same:
  assumes "counts_occurrence field_name sub expected_values item" "sub \<noteq> ''multiple''"
    "sub \<notin> nested_subfields"
    "subfield_step field_name field_config item (sub, expected_values) st = Done st'"
  shows "sub_view sub st' = bump (occurrences field_name sub item) (sub_view sub st)"
proof -
  from assms(3) have n: "sub \<noteq> ''nameIdentifierScheme''" "sub \<noteq> ''affiliationIdentifier''"
    "sub \<noteq> ''affiliationIdentifierScheme''"
    by (simp_all add: nested_subfields_def)
  have loop1: "sub_view sub (state_of (for_each (identifier_step field_config) xs s)) = sub_view sub s" for xs s
    by (rule for_each_keeps [where p = "sub_view sub"]) (rule view_identifier_step [OF n(1)])
  have loop2: "sub_view sub (state_of (for_each (affiliation_step field_config) xs s)) = sub_view sub s" for xs s
    by (rule for_each_keeps [where p = "sub_view sub"]) (rule view_affiliation_step [OF n(2,3)])
  consider (f) "field_name = ''fundingReferences''"
    | (t) "field_name \<noteq> ''fundingReferences''" "sub = ''nameType''"
    | (i) "field_name \<noteq> ''fundingReferences''" "sub = ''nameIdentifier''"
    | (a) "field_name \<noteq> ''fundingReferences''" "sub = ''affiliation''"
    | (e) "field_name \<noteq> ''fundingReferences''" "sub \<noteq> ''nameType''" "sub \<noteq> ''nameIdentifier''"
          "sub \<noteq> ''affiliation''"
    by blast
  then show ?thesis
  proof cases
    case f
    with assms(1) obtain v where v: "jget item sub JNull = Inr v" "truthy v"
      by (auto simp: counts_occurrence_def split: sum.splits)
    with f assms(2,4)
    have "and_then (count_subfield sub 1 st) (funding_value sub expected_values v) = Done st'"
      by (simp add: subfield_step_def Let_def funding_branch_def)
    from counted_then_kept [OF this view_funding_value] f show ?thesis
      by (simp add: occurrences_def)
  next
    case t
    with assms(1) obtain v where v: "jget item ''nameType'' (JStr []) = Inr v" "truthy v"
      by (auto simp: counts_occurrence_def split: sum.splits)
    with t assms(2,4)
    have "and_then (count_subfield sub 1 st) (on_stats (modify_subfield sub (inc_value v))) = Done st'"
      by (simp add: subfield_step_def Let_def nameType_branch_def)
    from counted_then_kept [OF this view_inc_value] t show ?thesis
      by (simp add: occurrences_def)
  next
    case i
    with assms(1) obtain v where v: "jget item ''nameIdentifiers'' (JList []) = Inr v" "truthy v"
      by (auto simp: counts_occurrence_def split: sum.splits)
    with i assms(2,4)
    have "and_then (count_subfield sub (int (length (as_list v))) st)
            (for_each (identifier_step field_config) (as_list v)) = Done st'"
      by (simp add: subfield_step_def Let_def nameIdentifier_branch_def)
    from counted_then_kept [OF this loop1] i v show ?thesis
      by (simp add: occurrences_def)
  next
    case a
    with assms(1) obtain v where v: "jget item ''affiliation'' (JList []) = Inr v" "truthy v"
      by (auto simp: counts_occurrence_def split: sum.splits)
    with a assms(2,4)
    have "and_then (count_subfield sub (int (length (as_list v))) st)
            (for_each (affiliation_step field_config) (as_list v)) = Done st'"
      by (simp add: subfield_step_def Let_def affiliation_branch_def)
    from counted_then_kept [OF this loop2] a v show ?thesis
      by (simp add: occurrences_def)
  next
    case e
    with assms(1) obtain v where v: "jget item sub JNull = Inr v" "truthy v"
      "cfg_contains expected_values v = Inr True"
      "sub \<in> {''contributorType'', ''relationType'', ''relatedIdentifierType'', ''resourceTypeGeneral''}"
      by (auto simp: counts_occurrence_def split: sum.splits if_splits)
    with e assms(2,4)
    have "and_then (count_subfield sub 1 st) (on_stats (modify_subfield sub (inc_value v))) = Done st'"
      by (simp add: subfield_step_def Let_def enumerated_branch_def del: insert_iff)
    from counted_then_kept [OF this view_inc_value] e show ?thesis
      by (simp add: occurrences_def)
  qed
qed

lemma for_each_others:
  assumes "\<And>x s. x \<in> set xs \<Longrightarrow> p (state_of (body x s)) = p s"
  shows "p (state_of (for_each body xs s)) = p s"
  using assms
proof (induction xs arbitrary: s)
  case Nil
  show ?case by simp
next
  case (Cons x xs)
  have step: "p (state_of (body x s)) = p s" using Cons.prems by simp
  show ?case
  proof (cases "body x s")
    case (Done s1)
    with step have "p s1 = p s" by simp
    moreover have "p (state_of (for_each body xs s1)) = p s1"
      using Cons.prems by (intro Cons.IH) simp
    ultimately show ?thesis using Done by simp
  next
    case (Raised e s1)
    with step show ?thesis by simp
  qed
qed

lemma for_each_one:
  assumes "distinct (map fst xs)" "x0 \<in> set xs"
    and other: "\<And>x s. x \<in> set xs \<Longrightarrow> fst x \<noteq> fst x0 \<Longrightarrow> p (state_of (body x s)) = p s"
    and same: "\<And>s s'. body x0 s = Done s' \<Longrightarrow> p s' = F (p s)"
    and run: "for_each body xs s = Done s'"
  shows "p s' = F (p s)"
  using assms(1,2) run other
proof (induction xs arbitrary: s)
  case Nil
  then show ?case by simp
next
  case (Cons x xs)
  from Cons.prems(3) obtain s1 where s1: "body x s = Done s1" "for_each body xs s1 = Done s'"
    by (cases "body x s") auto
  show ?case
  proof (cases "x = x0")
    case True
    with Cons.prems(1) have "fst x0 \<notin> fst ` set xs" by simp
    then have "p (state_of (body y t)) = p t" if "y \<in> set xs" for y t
      using that Cons.prems(4) [of y t] by (metis imageI list.set_intros(2))
    then have "p (state_of (for_each body xs s1)) = p s1" by (rule for_each_others)
    with s1 same [of s s1] True show ?thesis by simp
  next
    case False
    with Cons.prems(2) have mem: "x0 \<in> set xs" by simp
    with Cons.prems(1) have "fst x \<noteq> fst x0" by (metis distinct.simps(2) imageI list.simps(9) list.set_map)
    with Cons.prems(4) [of x s] s1(1) have "p s1 = p s" by simp
    moreover have "p s' = F (p s1)"
      using Cons.prems(1) mem s1(2) Cons.prems(4) by (intro Cons.IH) auto
    ultimately show ?thesis by simp
  qed
qed

lemma item_step_view:
  assumes "distinct (map fst field_config)" "map_of field_config sub = Some expected_values"
    "sub \<noteq> ''multiple''" "sub \<notin> nested_subfields"
    "counts_occurrence field_name sub expected_values item"
    "item_step field_name field_config item st = Done st'"
  shows "sub_view sub st' = bump (occurrences field_name sub item) (sub_view sub st)"
proof -
  have mem: "(sub, expected_values) \<in> set field_config" using assms(2) by (rule map_of_SomeD)
  have other: "sub_view sub (state_of (subfield_step field_name field_config item x s)) = sub_view sub s"
    if "x \<in> set field_config" "fst x \<noteq> fst (sub, expected_values)" for x s
    using that(2) assms(4) by (intro view_step_other) auto
  have same: "sub_view sub s' = bump (occurrences field_name sub item) (sub_view sub s)"
    if "subfield_step field_name field_config item (sub, expected_values) s = Done s'" for s s'
    using assms(5,3,4) that by (rule view_step_same)
  have run: "for_each (subfield_step field_name field_config item) field_config st = Done st'"
    using assms(6) by (simp add: item_step_def)
  show ?thesis
    by (rule for_each_one [of field_config "(sub, expected_values)" "sub_view sub"
          "subfield_step field_name field_config item" "bump (occurrences field_name sub item)" st st',
          OF assms(1) mem other same run])
qed

lemma items_view:
  assumes "distinct (map fst field_config)" "map_of field_config sub = Some expected_values"
    "sub \<noteq> ''multiple''" "sub \<notin> nested_subfields"
    "\<forall>item \<in> set items. counts_occurrence field_name sub expected_values item"
    "for_each (item_step field_name field_config) items st = Done st'"
  shows "sub_view sub st' = foldl (\<lambda>v item. bump (occurrences field_name sub item) v) (sub_view sub st) items"
  using assms(5,6)
proof (induction items arbitrary: st)
  case Nil
  then show ?case by simp
next
  case (Cons item items)
  from Cons.prems(2) obtain s1 where s1: "item_step field_name field_config item st = Done s1"
    "for_each (item_step field_name field_config) items s1 = Done st'"
    by (cases "item_step field_name field_config item st") auto
  from Cons.prems(1) have "counts_occurrence field_name sub expected_values item" by simp
  from item_step_view [OF assms(1-4) this s1(1)] Cons.IH [OF _ s1(2)] Cons.prems(1)
  show ?case by simp
qed

lemma foldl_bump:
  "foldl (\<lambda>v x. bump (f x) v) (Some (c, i), b) xs
     = (Some (c + (if b \<or> xs = [] then 0 else 1), i + sum_list (map f xs)), b \<or> xs \<noteq> [])"
  by (induction xs arbitrary: c i b) (auto simp: bump_def)

lemma recompute_step_counts:
  "map_option (\<lambda>s. (sf_count s, sf_instances s)) (sub_of (state_of (recompute_step t k fs)) sub)
     = map_option (\<lambda>s. (sf_count s, sf_instances s)) (sub_of fs sub)"
  unfolding recompute_step_def
  by (simp add: sub_of_modify_same [OF recompute_counts] split: option.splits)

lemma occurrences_direct:
  "subfield \<notin> {''nameIdentifier'', ''affiliation''} \<Longrightarrow> occurrences field_name subfield item = 1"
  by (simp add: occurrences_def)

lemma list_branch_counts:
  assumes "map_of SUBFIELD_STATS field_name = Some field_config"
    and "map_of field_config subfield = Some expected_values"
    and "subfield \<noteq> ''multiple''" "subfield \<notin> nested_subfields"
    and "items \<noteq> []"
    and "\<forall>item \<in> set items. counts_occurrence field_name subfield expected_values item"
    and "update_subfield_stats (JList items) field_name fs tot = Done fs'"
    and "sub_of fs subfield = Some s"
  shows "\<exists>s'. sub_of fs' subfield = Some s' \<and> sf_count s' = sf_count s + 1 \<and>
           sf_instances s' = sf_instances s + sum_list (map (occurrences field_name subfield) items) \<and>
           (subfield \<notin> {''nameIdentifier'', ''affiliation''} \<longrightarrow>
              sf_instances s' = sf_instances s + int (length items))"
proof -
  let ?fs1 = "fs\<lparr>fs_instances := fs_instances fs + int (length items)\<rparr>"
  let ?cv = "\<lambda>s. (sf_count s, sf_instances s)"
  from assms(1,5,7) obtain st where st: "for_each (item_step field_name field_config) items (?fs1, {}) = Done st"
    and rec: "for_each (recompute_step tot) (map fst field_config) (fst st) = Done fs'"
    by (cases "for_each (item_step field_name field_config) items (?fs1, {})")
       (auto simp: update_subfield_stats_def)
  have start: "sub_view subfield (?fs1, {}) = (Some (sf_count s, sf_instances s), False)"
    using assms(8) by (simp add: sub_view_def sub_of_def)
  from items_view [OF config_keys_distinct [OF assms(1)] assms(2,3,4,6) st] start assms(5)
  have "sub_view subfield st
          = (Some (sf_count s + 1, sf_instances s + sum_list (map (occurrences field_name subfield) items)), True)"
    by (simp add: foldl_bump)
  then have "map_option ?cv (sub_of (fst st) subfield)
          = Some (sf_count s + 1, sf_instances s + sum_list (map (occurrences field_name subfield) items))"
    by (simp add: sub_view_def)
  moreover have "map_option ?cv (sub_of (state_of (for_each (recompute_step tot) (map fst field_config) (fst st))) subfield)
          = map_option ?cv (sub_of (fst st) subfield)"
    by (rule for_each_keeps [where p = "\<lambda>fs. map_option ?cv (sub_of fs subfield)"])
       (rule recompute_step_counts)
  ultimately have "map_option ?cv (sub_of fs' subfield)
          = Some (sf_count s + 1, sf_instances s + sum_list (map (occurrences field_name subfield) items))"
    using rec by simp
  then obtain s' where s': "sub_of fs' subfield = Some s'" "sf_count s' = sf_count s + 1"
    "sf_instances s' = sf_instances s + sum_list (map (occurrences field_name subfield) items)"
    by (cases "sub_of fs' subfield") auto
  have "sum_list (map (occurrences field_name subfield) items) = int (length items)"
    if "subfield \<notin> {''nameIdentifier'', ''affiliation''}"
    using occurrences_direct [OF that] by (induction items) simp_all
  with s' show ?thesis by auto
qed

lemma config_names:
  "map fst creators_config = [''multiple'', ''nameType'', ''nameIdentifier'', ''nameIdentifierScheme'',
     ''affiliation'', ''affiliationIdentifier'', ''affiliationIdentifierScheme'']"
  "map fst contributors_config = [''multiple'', ''contributorType'', ''nameIdentifier'',
     ''nameIdentifierScheme'', ''affiliation'', ''affiliationIdentifier'', ''affiliationIdentifierScheme'']"
  "map fst resourceType_config = [''multiple'', ''resourceTypeGeneral'']"
  "map fst relatedIdentifiers_config = [''multiple'', ''relationType'', ''relatedIdentifierType'',
     ''resourceTypeGeneral'']"
  "map fst fundingReferences_config = [''multiple'', ''funderName'', ''funderIdentifier'',
     ''funderIdentifierType'', ''awardNumber'', ''awardURI'', ''awardTitle'']"
  by (simp_all add: creators_config_def contributors_config_def resourceType_config_def
      relatedIdentifiers_config_def fundingReferences_config_def)

lemma config_cases:
  assumes "map_of SUBFIELD_STATS field_name = Some field_config"
  obtains
      (c) "field_name = ''creators''" "field_config = creators_config"
    | (k) "field_name = ''contributors''" "field_config = contributors_config"
    | (t) "field_name = ''resourceType''" "field_config = resourceType_config"
    | (r) "field_name = ''relatedIdentifiers''" "field_config = relatedIdentifiers_config"
    | (f) "field_name = ''fundingReferences''" "field_config = fundingReferences_config"
  using assms by (auto simp: SUBFIELD_STATS_def split: if_splits)

lemma exposes_value:
  assumes "exposes subfield item"
  obtains d v where "item = JDict d"
    "map_of d (if subfield = ''nameIdentifier'' then ''nameIdentifiers'' else subfield) = Some v" "truthy v"
proof -
  from assms obtain d where d: "item = JDict d"
    by (cases item) (simp_all add: exposes_def jget_def)
  let ?k = "if subfield = ''nameIdentifier'' then ''nameIdentifiers'' else subfield"
  from assms d obtain v where "map_of d ?k = Some v" "truthy v"
    by (cases "map_of d ?k") (simp_all add: exposes_def jget_def)
  with d that show ?thesis by blast
qed

lemma jget_present: "map_of d k = Some v \<Longrightarrow> jget (JDict d) k dflt = Inr v"
  by (simp add: jget_def)

lemma configured_subfield:
  assumes "map_of SUBFIELD_STATS field_name = Some field_config"
    and "map_of field_config subfield = Some expected_values"
    and "subfield \<noteq> ''multiple''" "subfield \<notin> nested_subfields"
  shows "(field_name = ''fundingReferences'' \<and> subfield \<noteq> ''nameIdentifier'') \<or>
         (field_name \<noteq> ''fundingReferences'' \<and>
          (subfield \<in> {''nameType'', ''nameIdentifier'', ''affiliation''} \<or>
           subfield \<in> enumerated_subfields))"
proof -
  from assms(2) have mem: "subfield \<in> set (map fst field_config)" by (rule map_of_in_keys)
  from assms(4) have n: "subfield \<noteq> ''nameIdentifierScheme''" "subfield \<noteq> ''affiliationIdentifier''"
    "subfield \<noteq> ''affiliationIdentifierScheme''"
    by (simp_all add: nested_subfields_def)
  from assms(1) show ?thesis
  proof (cases rule: config_cases)
    case c
    from mem [unfolded c(2) config_names] assms(3) n c(1) show ?thesis by auto
  next
    case k
    from mem [unfolded k(2) config_names] assms(3) n k(1) show ?thesis
      by (auto simp: enumerated_subfields_def)
  next
    case t
    from mem [unfolded t(2) config_names] assms(3) n t(1) show ?thesis
      by (auto simp: enumerated_subfields_def)
  next
    case r
    from mem [unfolded r(2) config_names] assms(3) n r(1) show ?thesis
      by (auto simp: enumerated_subfields_def)
  next
    case f
    from mem [unfolded f(2) config_names] assms(3) n f(1) show ?thesis by auto
  qed
qed

lemma counts_funding:
  "counts_occurrence ''fundingReferences'' subfield expected_values item =
     (case jget item subfield JNull of Inr v \<Rightarrow> truthy v | Inl e \<Rightarrow> False)"
  unfolding counts_occurrence_def by (rule if_P) (rule refl)

lemma counts_nameType:
  "field_name \<noteq> ''fundingReferences'' \<Longrightarrow>
   counts_occurrence field_name ''nameType'' expected_values item =
     (case jget item ''nameType'' (JStr []) of Inr v \<Rightarrow> truthy v | Inl e \<Rightarrow> False)"
  unfolding counts_occurrence_def by simp

lemma counts_nameIdentifier:
  "field_name \<noteq> ''fundingReferences'' \<Longrightarrow>
   counts_occurrence field_name ''nameIdentifier'' expected_values item =
     (case jget item ''nameIdentifiers'' (JList []) of Inr v \<Rightarrow> truthy v | Inl e \<Rightarrow> False)"
  unfolding counts_occurrence_def by simp

lemma counts_affiliation:
  "field_name \<noteq> ''fundingReferences'' \<Longrightarrow>
   counts_occurrence field_name ''affiliation'' expected_values item =
     (case jget item ''affiliation'' (JList []) of Inr v \<Rightarrow> truthy v | Inl e \<Rightarrow> False)"
  unfolding counts_occurrence_def by simp

lemma counts_enumerated:
  assumes "field_name \<noteq> ''fundingReferences''" "subfield \<in> enumerated_subfields"
  shows "counts_occurrence field_name subfield expected_values item =
     (case jget item subfield JNull of
        Inr v \<Rightarrow> truthy v \<and> cfg_contains expected_values v = Inr True
      | Inl e \<Rightarrow> False)"
proof -
  from assms(2) consider "subfield = ''contributorType''" | "subfield = ''relationType''"
    | "subfield = ''relatedIdentifierType''" | "subfield = ''resourceTypeGeneral''"
    by (auto simp: enumerated_subfields_def)
  then show ?thesis
    by cases (simp_all add: counts_occurrence_def assms(1))
qed

text \<open>An occurrence that exposes a configured subfield, with a permitted value where the
  subfield is read with a membership test, is counted by the branch of the subfield.\<close>

lemma exposed_counted:
  assumes "map_of SUBFIELD_STATS field_name = Some field_config"
    and "map_of field_config subfield = Some expected_values"
    and "subfield \<noteq> ''multiple''" "subfield \<notin> nested_subfields"
    and "exposes subfield item"
    and "subfield \<in> enumerated_subfields \<longrightarrow> permitted expected_values subfield item"
  shows "counts_occurrence field_name subfield expected_values item"
proof -
  let ?k = "if subfield = ''nameIdentifier'' then ''nameIdentifiers'' else subfield"
  from assms(5) obtain d v where item: "item = JDict d" and v: "map_of d ?k = Some v" "truthy v"
    by (rule exposes_value)
  have get: "jget item ?k dflt = Inr v" for dflt
    unfolding item using v(1) by (rule jget_present)
  from configured_subfield [OF assms(1-4)] show ?thesis
  proof (elim disjE conjE)
    assume f: "field_name = ''fundingReferences''" and n: "subfield \<noteq> ''nameIdentifier''"
    from n get [of JNull] have "jget item subfield JNull = Inr v" by simp
    then show ?thesis unfolding f counts_funding using v(2) by simp
  next
    assume f: "field_name \<noteq> ''fundingReferences''"
      and s: "subfield \<in> {''nameType'', ''nameIdentifier'', ''affiliation''}"
    from s consider (t) "subfield = ''nameType''" | (i) "subfield = ''nameIdentifier''"
      | (a) "subfield = ''affiliation''" by blast
    then show ?thesis
    proof cases
      case t
      from get [of "JStr []"] have "jget item ''nameType'' (JStr []) = Inr v" unfolding t by simp
      then show ?thesis unfolding t counts_nameType [OF f] using v(2) by simp
    next
      case i
      from get [of "JList []"] have "jget item ''nameIdentifiers'' (JList []) = Inr v"
        unfolding i by simp
      then show ?thesis unfolding i counts_nameIdentifier [OF f] using v(2) by simp
    next
      case a
      from get [of "JList []"] have "jget item ''affiliation'' (JList []) = Inr v"
        unfolding a by simp
      then show ?thesis unfolding a counts_affiliation [OF f] using v(2) by simp
    qed
  next
    assume f: "field_name \<noteq> ''fundingReferences''" and e: "subfield \<in> enumerated_subfields"
    from e have "subfield \<noteq> ''nameIdentifier''" by (auto simp: enumerated_subfields_def)
    with get [of JNull] have g: "jget item subfield JNull = Inr v" by simp
    from e assms(6) have "permitted expected_values subfield item" by simp
    with g have "cfg_contains expected_values v = Inr True" by (simp add: permitted_def)
    with g v(2) show ?thesis unfolding counts_enumerated [OF f e] by simp
  qed
qed

text \<open>
  Claim C5, as amended. A list-valued field tracked in \<open>SUBFIELD_STATS\<close> has \<open>N \<ge> 1\<close>
  occurrences, each of which exposes a configured subfield other than the three counted per
  identifier or affiliation (\<open>nameIdentifierScheme\<close>, \<open>affiliationIdentifier\<close>,
  \<open>affiliationIdentifierScheme\<close>); where the subfield is one of \<open>contributorType\<close>,
  \<open>relationType\<close>, \<open>relatedIdentifierType\<close> and \<open>resourceTypeGeneral\<close>, the value every occurrence
  has for it is one of the permitted values. If the subfield update returns, the count of the
  subfield has grown by exactly 1 and its instances by the number of instances the
  occurrences add: the number of name identifiers (affiliations) each occurrence lists for
  \<open>nameIdentifier\<close> (\<open>affiliation\<close>), and one per occurrence, that is \<open>N\<close>, for every other
  subfield.
\<close>

theorem subfield_counted_once:
  assumes "map_of SUBFIELD_STATS field_name = Some field_config"
    and "map_of field_config subfield = Some expected_values"
    and "subfield \<noteq> ''multiple''" "subfield \<notin> nested_subfields"
    and "items \<noteq> []"
    and "\<forall>item \<in> set items. exposes subfield item"
    and "subfield \<in> enumerated_subfields \<longrightarrow>
           (\<forall>item \<in> set items. permitted expected_values subfield item)"
    and "update_subfield_stats (JList items) field_name fs tot = Done fs'"
    and "sub_of fs subfield = Some s"
  shows "\<exists>s'. sub_of fs' subfield = Some s' \<and> sf_count s' = sf_count s + 1 \<and>
           sf_instances s' = sf_instances s + sum_list (map (occurrences field_name subfield) items) \<and>
           (subfield \<notin> {''nameIdentifier'', ''affiliation''} \<longrightarrow>
              sf_instances s' = sf_instances s + int (length items))"
proof -
  have "\<forall>item \<in> set items. counts_occurrence field_name subfield expected_values item"
  proof
    fix item assume "item \<in> set items"
    with assms(6,7) have "exposes subfield item"
      "subfield \<in> enumerated_subfields \<longrightarrow> permitted expected_values subfield item"
      by simp_all
    with assms(1-4) show "counts_occurrence field_name subfield expected_values item"
      by (rule exposed_counted)
  qed
  with assms(1-5) show ?thesis using assms(8,9) by (rule list_branch_counts)
qed

lemmas list_branch_eval =
  update_subfield_stats_def item_step_def subfield_step_def funding_branch_def funding_value_def
  nameType_branch_def nameIdentifier_branch_def affiliation_branch_def enumerated_branch_def
  identifier_step_def jget_def cfg_contains_def as_list_def count_subfield_def on_stats_def
  modify_subfield_def inc_count_def add_instances_def inc_value_def and_then_def
  recompute_step_def recompute_def ratio_def empty_subfield_stats_def zero_values_def Let_def

lemma creators_returned:
  "returned (update_subfield_stats (JList creator_items) ''creators''
               (create_empty_field_stats ''creators'' ''mandatory'') 1)"
  by (simp add: list_branch_eval creator_items_def SUBFIELD_STATS_def creators_config_def
      create_empty_field_stats_def)

lemma two_contributors_returned:
  "returned (update_subfield_stats (JList two_contributors) ''contributors''
               (create_empty_field_stats ''contributors'' ''recommended'') 1)"
  by (simp add: list_branch_eval two_contributors_def SUBFIELD_STATS_def contributors_config_def
      create_empty_field_stats_def)

lemma mixed_contributors_counts:
  "returned (update_subfield_stats (JList mixed_contributors) ''contributors''
               (create_empty_field_stats ''contributors'' ''recommended'') 1) \<and>
   map_option (\<lambda>s. (sf_count s, sf_instances s))
     (sub_of (state_of (update_subfield_stats (JList mixed_contributors) ''contributors''
               (create_empty_field_stats ''contributors'' ''recommended'') 1)) ''contributorType'')
     = Some (1, 1)"
  by (simp add: list_branch_eval mixed_contributors_def SUBFIELD_STATS_def contributors_config_def
      create_empty_field_stats_def sub_of_def or_empty_def)

theorem subfield_counted_once_witness:
  "list_all (exposes ''contributorType'') two_contributors \<and>
   list_all (permitted (CSet (cfg_elements (the (map_of contributors_config ''contributorType''))))
               ''contributorType'') two_contributors \<and>
   length two_contributors = 2 \<and>
   returned (update_subfield_stats (JList two_contributors) ''contributors''
               (create_empty_field_stats ''contributors'' ''recommended'') 1) \<and>
   map_option (\<lambda>s. (sf_count s, sf_instances s))
     (sub_of (state_of (update_subfield_stats (JList two_contributors) ''contributors''
               (create_empty_field_stats ''contributors'' ''recommended'') 1)) ''contributorType'')
     = Some (1, 2)"
proof -
  let ?fs = "create_empty_field_stats ''contributors'' ''recommended''"
  let ?r = "update_subfield_stats (JList two_contributors) ''contributors'' ?fs 1"
  let ?e = "the (map_of contributors_config ''contributorType'')"
  have e: "CSet (cfg_elements ?e) = ?e" by (simp add: contributors_config_def)
  have exp: "list_all (exposes ''contributorType'') two_contributors"
    by (simp add: exposes_def two_contributors_def jget_def)
  have per: "list_all (permitted ?e ''contributorType'') two_contributors"
    by (simp add: permitted_def two_contributors_def jget_def cfg_contains_def contributors_config_def)
  from two_contributors_returned obtain fs' where fs': "?r = Done fs'" by (cases ?r) auto
  have cfg: "map_of SUBFIELD_STATS ''contributors'' = Some contributors_config"
    by (simp add: SUBFIELD_STATS_def)
  have entry: "map_of contributors_config ''contributorType'' = Some ?e"
    by (simp add: contributors_config_def)
  have "\<exists>vs. sub_of ?fs ''contributorType'' = Some (empty_subfield_stats vs)"
    by (simp add: sub_of_def or_empty_def create_empty_field_stats_def SUBFIELD_STATS_def
        contributors_config_def) (rule exI, rule refl)
  then obtain vs where start: "sub_of ?fs ''contributorType'' = Some (empty_subfield_stats vs)" ..
  have "\<exists>s'. sub_of fs' ''contributorType'' = Some s' \<and> sf_count s' = 1 \<and> sf_instances s' = 2"
    using subfield_counted_once [OF cfg entry _ _ _ _ _ fs' start] exp per
    by (auto simp add: nested_subfields_def two_contributors_def list_all_iff empty_subfield_stats_def)
  with exp per two_contributors_returned fs' show ?thesis
    by (auto simp: two_contributors_def e)
qed

text \<open>Claim C5 as stated fails in two ways. For a subfield that is itself a list: the one
  creator of the record exposes \<open>nameIdentifier\<close>, and the instances of that subfield grow by
  2, the number of name identifiers, not by the number of occurrences, 1. For a subfield read
  with a membership test: both contributors of the record expose \<open>contributorType\<close>, and the
  instances of that subfield grow by 1, the number of occurrences with a permitted type, not
  by the number of occurrences, 2.\<close>

theorem name_identifier_counterexample:
  "list_all (exposes ''nameIdentifier'') creator_items \<and>
   length creator_items = 1 \<and>
   returned (update_subfield_stats (JList creator_items) ''creators''
               (create_empty_field_stats ''creators'' ''mandatory'') 1) \<and>
   map_option (\<lambda>s. (sf_count s, sf_instances s))
     (sub_of (state_of (update_subfield_stats (JList creator_items) ''creators''
               (create_empty_field_stats ''creators'' ''mandatory'') 1)) ''nameIdentifier'')
     = Some (1, 2) \<and>
   list_all (exposes ''contributorType'') mixed_contributors \<and>
   length mixed_contributors = 2 \<and>
   returned (update_subfield_stats (JList mixed_contributors) ''contributors''
               (create_empty_field_stats ''contributors'' ''recommended'') 1) \<and>
   map_option (\<lambda>s. (sf_count s, sf_instances s))
     (sub_of (state_of (update_subfield_stats (JList mixed_contributors) ''contributors''
               (create_empty_field_stats ''contributors'' ''recommended'') 1)) ''contributorType'')
     = Some (1, 1)"
proof -
  let ?fs = "create_empty_field_stats ''creators'' ''mandatory''"
  let ?r = "update_subfield_stats (JList creator_items) ''creators'' ?fs 1"
  have exp: "list_all (exposes ''nameIdentifier'') creator_items"
    by (simp add: exposes_def creator_items_def jget_def)
  have cnt: "list_all (counts_occurrence ''creators'' ''nameIdentifier'' (CDict [(''scheme'', False)])) creator_items"
    by (simp add: counts_occurrence_def creator_items_def jget_def)
  from creators_returned obtain fs' where fs': "?r = Done fs'" by (cases ?r) auto
  have cfg: "map_of SUBFIELD_STATS ''creators'' = Some creators_config"
    by (simp add: SUBFIELD_STATS_def)
  have entry: "map_of creators_config ''nameIdentifier'' = Some (CDict [(''scheme'', False)])"
    by (simp add: creators_config_def)
  have start: "sub_of ?fs ''nameIdentifier'' = Some (empty_subfield_stats None)"
    by (simp add: sub_of_def or_empty_def create_empty_field_stats_def SUBFIELD_STATS_def
        creators_config_def)
  have "\<exists>s'. sub_of fs' ''nameIdentifier'' = Some s' \<and> sf_count s' = 1 \<and> sf_instances s' = 2"
    using list_branch_counts [OF cfg entry _ _ _ _ fs' start] cnt
    by (auto simp add: nested_subfields_def creator_items_def list_all_iff empty_subfield_stats_def
        occurrences_def jget_def as_list_def)
  moreover have "list_all (exposes ''contributorType'') mixed_contributors"
    by (simp add: exposes_def mixed_contributors_def jget_def)
  ultimately show ?thesis
    using exp creators_returned fs' mixed_contributors_counts
    by (auto simp: creator_items_def mixed_contributors_def)
qed

section \<open>Merging is commutative and associative on built statistics\<close>

lemma map_keys_cong: "(\<And>k. k \<in> set ks \<Longrightarrow> f k = g k) \<Longrightarrow> map (\<lambda>k. (k, f k)) ks = map (\<lambda>k. (k, g k)) ks"
  by (induction ks) auto

lemma merge_values_comm:
  "map fst v1 = map fst v2 \<Longrightarrow> merge_values v1 v2 = merge_values v2 v1"
  by (simp add: merge_values_def union_keys_same add.commute)

lemma merge_values_assoc:
  assumes "map fst v1 = map fst v2" "map fst v2 = map fst v3"
  shows "merge_values (merge_values v1 v2) v3 = merge_values v1 (merge_values v2 v3)"
proof -
  have k12: "map fst (merge_values v1 v2) = map fst v1"
    using assms by (simp add: merge_values_keys union_keys_same)
  have k23: "map fst (merge_values v2 v3) = map fst v1"
    using assms by (simp add: merge_values_keys union_keys_same)
  have "merge_values (merge_values v1 v2) v3
          = map (\<lambda>v. (v, get_int (merge_values v1 v2) v + get_int v3 v)) (map fst v1)"
    using k12 assms by (simp add: merge_values_def [of "merge_values v1 v2"] union_keys_same)
  moreover have "merge_values v1 (merge_values v2 v3)
          = map (\<lambda>v. (v, get_int v1 v + get_int (merge_values v2 v3) v)) (map fst v1)"
    using k23 by (simp add: merge_values_def [of v1] union_keys_same)
  ultimately show ?thesis by (simp add: get_int_merge_values add.assoc)
qed

lemma sf_shape_cases:
  assumes "sf_shape s1 = sf_shape s2"
  obtains "sf_values s1 = None" "sf_values s2 = None"
  | v1 v2 where "sf_values s1 = Some v1" "sf_values s2 = Some v2" "map fst v1 = map fst v2"
  using assms by (cases "sf_values s1"; cases "sf_values s2") (auto simp: sf_shape_def)

lemma merge_subfield_comm:
  assumes "sf_shape s1 = sf_shape s2"
  shows "merge_subfield t (Some s1) (Some s2) = merge_subfield t (Some s2) (Some s1)"
  using assms
  by (rule sf_shape_cases)
     (simp_all add: merge_subfield_def sf_get_count_def sf_get_instances_def sf_get_values_def
       or_empty_def Let_def add.commute merge_values_comm)

lemma merge_subfield_assoc:
  assumes "sf_shape p = sf_shape q" "sf_shape q = sf_shape r"
  shows "merge_subfield t (Some (merge_subfield t12 (Some p) (Some q))) (Some r)
           = merge_subfield t (Some p) (Some (merge_subfield t23 (Some q) (Some r)))"
proof (rule sf_shape_cases [OF assms(1)]; rule sf_shape_cases [OF assms(2)])
  fix v1 v2 v2' v3
  assume "sf_values p = Some v1" "sf_values q = Some v2" "map fst v1 = map fst v2"
    "sf_values q = Some v2'" "sf_values r = Some v3" "map fst v2' = map fst v3"
  then show ?thesis
    by (simp add: merge_subfield_def sf_get_count_def sf_get_instances_def sf_get_values_def
        or_empty_def Let_def add.assoc merge_values_assoc)
qed (simp_all add: merge_subfield_def sf_get_count_def sf_get_instances_def sf_get_values_def
       or_empty_def Let_def add.assoc)

lemma subs_shape_lookup:
  assumes "subs_shape s1 = subs_shape s2" "k \<in> set (map fst s1)"
  obtains p q where "map_of s1 k = Some p" "map_of s2 k = Some q" "sf_shape p = sf_shape q"
proof -
  from assms(2) obtain p where p: "map_of s1 k = Some p" using map_of_key_some by fastforce
  from arg_cong [OF assms(1), of "\<lambda>d. map_of d k"] p
  obtain q where "map_of s2 k = Some q" "sf_shape p = sf_shape q"
    by (cases "map_of s2 k") (auto simp: subs_shape_def map_of_shape)
  with p that show ?thesis by blast
qed

lemma subs_shape_same_keys: "subs_shape s1 = subs_shape s2 \<Longrightarrow> map fst s1 = map fst s2"
  by (metis subs_shape_keys)

lemma merge_subfields_keys: "map fst (merge_subfields t s1 s2) = union_keys s1 s2"
  by (simp add: merge_subfields_def comp_def)

lemma merge_subfields_lookup:
  "k \<in> set (union_keys s1 s2) \<Longrightarrow>
     map_of (merge_subfields t s1 s2) k = Some (merge_subfield t (map_of s1 k) (map_of s2 k))"
  by (simp add: merge_subfields_def map_of_map_keys)

lemma merge_subfields_comm:
  assumes "subs_shape s1 = subs_shape s2"
  shows "merge_subfields t s1 s2 = merge_subfields t s2 s1"
proof -
  have keys: "map fst s1 = map fst s2" using assms by (rule subs_shape_same_keys)
  have "merge_subfield t (map_of s1 k) (map_of s2 k) = merge_subfield t (map_of s2 k) (map_of s1 k)"
    if "k \<in> set (map fst s1)" for k
    using assms that by (rule subs_shape_lookup) (simp add: merge_subfield_comm)
  then show ?thesis
    using keys by (simp add: merge_subfields_def union_keys_same [OF keys]
        union_keys_same [OF keys [symmetric]] map_keys_cong)
qed

lemma merge_subfields_assoc:
  assumes "subs_shape s1 = subs_shape s2" "subs_shape s2 = subs_shape s3"
  shows "merge_subfields t (merge_subfields t12 s1 s2) s3
           = merge_subfields t s1 (merge_subfields t23 s2 s3)"
proof -
  have k12: "map fst s1 = map fst s2" using assms(1) by (rule subs_shape_same_keys)
  have k23: "map fst s2 = map fst s3" using assms(2) by (rule subs_shape_same_keys)
  have u12: "union_keys s1 s2 = map fst s1" and u23: "union_keys s2 s3 = map fst s1"
    using k12 k23 by (simp_all add: union_keys_same)
  have ul: "union_keys (merge_subfields t12 s1 s2) s3 = map fst s1"
    using k12 k23 by (simp add: union_keys_same merge_subfields_keys u12)
  have ur: "union_keys s1 (merge_subfields t23 s2 s3) = map fst s1"
    by (simp add: union_keys_same merge_subfields_keys u23)
  have "merge_subfield t (map_of (merge_subfields t12 s1 s2) k) (map_of s3 k)
          = merge_subfield t (map_of s1 k) (map_of (merge_subfields t23 s2 s3) k)"
    if k: "k \<in> set (map fst s1)" for k
  proof -
    from assms(1) k obtain p q where pq: "map_of s1 k = Some p" "map_of s2 k = Some q"
      "sf_shape p = sf_shape q" by (rule subs_shape_lookup)
    from k k12 have k2: "k \<in> set (map fst s2)" by simp
    from assms(2) k2 obtain q' r where qr: "map_of s2 k = Some q'" "map_of s3 k = Some r"
      "sf_shape q' = sf_shape r" by (rule subs_shape_lookup)
    with pq have "sf_shape q = sf_shape r" by simp
    with pq qr k show ?thesis
      by (simp add: merge_subfields_lookup u12 u23 merge_subfield_assoc)
  qed
  then show ?thesis
    by (simp add: merge_subfields_def [of t] ul ur map_keys_cong)
qed

lemma fs_shape_cases:
  assumes "fs_shape f1 = fs_shape f2"
  obtains "fs_subfields f1 = None" "fs_subfields f2 = None" "fs_fieldStatus f1 = fs_fieldStatus f2"
  | s1 s2 where "fs_subfields f1 = Some s1" "fs_subfields f2 = Some s2" "subs_shape s1 = subs_shape s2"
      "fs_fieldStatus f1 = fs_fieldStatus f2"
  using assms by (cases "fs_subfields f1"; cases "fs_subfields f2") (auto simp: fs_shape_def)

lemma merge_field_comm:
  assumes "fs_shape f1 = fs_shape f2"
  shows "merge_field t (Some f1) (Some f2) = merge_field t (Some f2) (Some f1)"
  using assms
  by (rule fs_shape_cases)
     (simp_all add: merge_field_def fs_get_count_def fs_get_instances_def fs_get_subfields_def
       fieldStatus_same or_empty_def Let_def add.commute merge_subfields_comm)

lemma merge_field_assoc:
  assumes "fs_shape p = fs_shape q" "fs_shape q = fs_shape r"
  shows "merge_field t (Some (merge_field t12 (Some p) (Some q))) (Some r)
           = merge_field t (Some p) (Some (merge_field t23 (Some q) (Some r)))"
proof (rule fs_shape_cases [OF assms(1)]; rule fs_shape_cases [OF assms(2)])
  fix s1 s2 s2' s3
  assume "fs_subfields p = Some s1" "fs_subfields q = Some s2" "subs_shape s1 = subs_shape s2"
    "fs_subfields q = Some s2'" "fs_subfields r = Some s3" "subs_shape s2' = subs_shape s3"
  then show ?thesis
    by (simp add: merge_field_def fs_get_count_def fs_get_instances_def fs_get_subfields_def
        fs_get_fieldStatus_def or_empty_def Let_def add.assoc merge_subfields_assoc
        split: option.splits)
qed (simp_all add: merge_field_def fs_get_count_def fs_get_instances_def fs_get_subfields_def
       fs_get_fieldStatus_def or_empty_def Let_def add.assoc split: option.splits)

lemma merge_type_stats_eq:
  assumes "tree_ok a" "tree_ok b"
  shows "merge_type_stats (Some a) (Some b) =
           \<lparr>st_count = st_count a + st_count b,
            st_fields = map (\<lambda>field. (field, merge_field (st_count a + st_count b)
                                (map_of (st_fields a) field) (map_of (st_fields b) field))) field_names,
            st_categories = calculate_category_metrics
               (map (\<lambda>field. (field, merge_field (st_count a + st_count b)
                                (map_of (st_fields a) field) (map_of (st_fields b) field))) field_names)
               (st_count a + st_count b)\<rparr>"
  using merge_type_stats_fields [OF assms]
  by (simp add: merge_type_stats_def st_get_count_def st_get_fields_def Let_def)

lemma tree_ok_pair:
  assumes "tree_ok a" "tree_ok b" "k \<in> set field_names"
  obtains fa fb where "map_of (st_fields a) k = Some fa" "map_of (st_fields b) k = Some fb"
    "fs_shape fa = fs_shape fb"
proof -
  from tree_ok_lookup [OF assms(1,3)] obtain fa where fa: "map_of (st_fields a) k = Some fa" ..
  from tree_ok_lookup [OF assms(2,3)] obtain fb where fb: "map_of (st_fields b) k = Some fb" ..
  from tree_ok_status [OF assms(1,2) fa fb] fa fb that show ?thesis by blast
qed

lemma merge_type_stats_comm:
  assumes "tree_ok a" "tree_ok b"
  shows "merge_type_stats (Some a) (Some b) = merge_type_stats (Some b) (Some a)"
proof -
  have "merge_field t (map_of (st_fields a) k) (map_of (st_fields b) k)
          = merge_field t (map_of (st_fields b) k) (map_of (st_fields a) k)"
    if "k \<in> set field_names" for k t
    using assms that by (rule tree_ok_pair) (simp add: merge_field_comm)
  then have eq: "map (\<lambda>k. (k, merge_field t (map_of (st_fields a) k) (map_of (st_fields b) k))) field_names
           = map (\<lambda>k. (k, merge_field t (map_of (st_fields b) k) (map_of (st_fields a) k))) field_names"
    for t by (intro map_keys_cong)
  have c: "st_count b + st_count a = st_count a + st_count b" by simp
  show ?thesis
    unfolding merge_type_stats_eq [OF assms] merge_type_stats_eq [OF assms(2,1)] c eq ..
qed

lemma merge_type_stats_assoc:
  assumes "tree_ok a" "tree_ok b" "tree_ok c"
  shows "merge_type_stats (Some (merge_type_stats (Some a) (Some b))) (Some c)
           = merge_type_stats (Some a) (Some (merge_type_stats (Some b) (Some c)))"
proof -
  let ?ab = "merge_type_stats (Some a) (Some b)" and ?bc = "merge_type_stats (Some b) (Some c)"
  have ok: "tree_ok ?ab" "tree_ok ?bc"
    using assms by (simp_all add: merge_type_stats_ok)
  have cab: "st_count ?ab = st_count a + st_count b" and cbc: "st_count ?bc = st_count b + st_count c"
    by (simp_all add: merge_type_stats_def st_get_count_def Let_def)
  have c: "st_count ?ab + st_count c = st_count a + st_count ?bc"
    by (simp add: cab cbc)
  have "merge_field t (map_of (st_fields ?ab) k) (map_of (st_fields c) k)
          = merge_field t (map_of (st_fields a) k) (map_of (st_fields ?bc) k)"
    if k: "k \<in> set field_names" for k t
  proof -
    from assms(1,2) k obtain fa fb where ab: "map_of (st_fields a) k = Some fa"
      "map_of (st_fields b) k = Some fb" "fs_shape fa = fs_shape fb" by (rule tree_ok_pair)
    from assms(2,3) k obtain fb' fc where bc: "map_of (st_fields b) k = Some fb'"
      "map_of (st_fields c) k = Some fc" "fs_shape fb' = fs_shape fc" by (rule tree_ok_pair)
    from ab bc have sh: "fs_shape fb = fs_shape fc" by simp
    have l: "map_of (st_fields ?ab) k = Some (merge_field (st_count a + st_count b) (Some fa) (Some fb))"
      using k ab by (simp add: merge_type_stats_fields [OF assms(1,2)] map_of_map_keys)
    have r: "map_of (st_fields ?bc) k = Some (merge_field (st_count b + st_count c) (Some fb) (Some fc))"
      using k ab bc by (simp add: merge_type_stats_fields [OF assms(2,3)] map_of_map_keys)
    show ?thesis
      unfolding l r ab(1) bc(2) using ab(3) sh by (rule merge_field_assoc)
  qed
  then have eq: "map (\<lambda>k. (k, merge_field t (map_of (st_fields ?ab) k) (map_of (st_fields c) k))) field_names
           = map (\<lambda>k. (k, merge_field t (map_of (st_fields a) k) (map_of (st_fields ?bc) k))) field_names"
    for t by (intro map_keys_cong)
  show ?thesis
    unfolding merge_type_stats_eq [OF ok(1) assms(3)] merge_type_stats_eq [OF assms(1) ok(2)] c eq ..
qed

lemma merge_stats_eq:
  assumes "entity_ok a" "entity_ok b"
  shows "merge_stats a b =
           \<lparr>summary = merge_type_stats (Some (summary a)) (Some (summary b)),
            byResourceType =
              map (\<lambda>rt. (rt, merge_type_stats (map_of (byResourceType a) rt) (map_of (byResourceType b) rt)))
                  resourceTypeGeneral_values\<rparr>"
  using assms by (simp add: merge_stats_def entity_ok_def union_keys_same)

lemma merge_stats_types:
  assumes "entity_ok a" "entity_ok b"
  shows "byResourceType (merge_stats a b) =
           map (\<lambda>rt. (rt, merge_type_stats (map_of (byResourceType a) rt) (map_of (byResourceType b) rt)))
               resourceTypeGeneral_values"
  by (simp add: merge_stats_eq [OF assms])

lemma merge_stats_comm:
  assumes "entity_ok a" "entity_ok b"
  shows "merge_stats a b = merge_stats b a"
proof -
  have "merge_type_stats (map_of (byResourceType a) rt) (map_of (byResourceType b) rt)
          = merge_type_stats (map_of (byResourceType b) rt) (map_of (byResourceType a) rt)"
    if "rt \<in> set resourceTypeGeneral_values" for rt
  proof -
    from entity_ok_lookup [OF assms(1) that] obtain ta
      where ta: "map_of (byResourceType a) rt = Some ta" "tree_ok ta" by blast
    from entity_ok_lookup [OF assms(2) that] obtain tb
      where tb: "map_of (byResourceType b) rt = Some tb" "tree_ok tb" by blast
    show ?thesis unfolding ta(1) tb(1) using ta(2) tb(2) by (rule merge_type_stats_comm)
  qed
  then have types: "map (\<lambda>rt. (rt, merge_type_stats (map_of (byResourceType a) rt) (map_of (byResourceType b) rt)))
                  resourceTypeGeneral_values
            = map (\<lambda>rt. (rt, merge_type_stats (map_of (byResourceType b) rt) (map_of (byResourceType a) rt)))
                  resourceTypeGeneral_values"
    by (intro map_keys_cong)
  have sum: "merge_type_stats (Some (summary a)) (Some (summary b))
           = merge_type_stats (Some (summary b)) (Some (summary a))"
    using assms by (intro merge_type_stats_comm) (simp_all add: entity_ok_def)
  show ?thesis
    unfolding merge_stats_eq [OF assms] merge_stats_eq [OF assms(2,1)] types sum ..
qed

lemma merge_stats_assoc:
  assumes "entity_ok a" "entity_ok b" "entity_ok c"
  shows "merge_stats (merge_stats a b) c = merge_stats a (merge_stats b c)"
proof -
  let ?ab = "merge_stats a b" and ?bc = "merge_stats b c"
  have ok: "entity_ok ?ab" "entity_ok ?bc"
    using assms by (simp_all add: merge_stats_ok)
  have sab: "summary ?ab = merge_type_stats (Some (summary a)) (Some (summary b))"
    and sbc: "summary ?bc = merge_type_stats (Some (summary b)) (Some (summary c))"
    by (simp_all add: merge_stats_def)
  have "merge_type_stats (map_of (byResourceType ?ab) rt) (map_of (byResourceType c) rt)
          = merge_type_stats (map_of (byResourceType a) rt) (map_of (byResourceType ?bc) rt)"
    if "rt \<in> set resourceTypeGeneral_values" for rt
  proof -
    from entity_ok_lookup [OF assms(1) that] obtain ta
      where ta: "map_of (byResourceType a) rt = Some ta" "tree_ok ta" by blast
    from entity_ok_lookup [OF assms(2) that] obtain tb
      where tb: "map_of (byResourceType b) rt = Some tb" "tree_ok tb" by blast
    from entity_ok_lookup [OF assms(3) that] obtain tc
      where tc: "map_of (byResourceType c) rt = Some tc" "tree_ok tc" by blast
    have l: "map_of (byResourceType ?ab) rt = Some (merge_type_stats (Some ta) (Some tb))"
      using that ta(1) tb(1) by (simp add: merge_stats_types [OF assms(1,2)] map_of_map_keys)
    have r: "map_of (byResourceType ?bc) rt = Some (merge_type_stats (Some tb) (Some tc))"
      using that tb(1) tc(1) by (simp add: merge_stats_types [OF assms(2,3)] map_of_map_keys)
    show ?thesis
      unfolding l r ta(1) tc(1) using ta(2) tb(2) tc(2) by (rule merge_type_stats_assoc)
  qed
  then have types: "map (\<lambda>rt. (rt, merge_type_stats (map_of (byResourceType ?ab) rt) (map_of (byResourceType c) rt)))
                  resourceTypeGeneral_values
            = map (\<lambda>rt. (rt, merge_type_stats (map_of (byResourceType a) rt) (map_of (byResourceType ?bc) rt)))
                  resourceTypeGeneral_values"
    by (intro map_keys_cong)
  have sum: "merge_type_stats (Some (summary ?ab)) (Some (summary c))
           = merge_type_stats (Some (summary a)) (Some (summary ?bc))"
    unfolding sab sbc using assms by (intro merge_type_stats_assoc) (simp_all add: entity_ok_def)
  show ?thesis
    unfolding merge_stats_eq [OF ok(1) assms(3)] merge_stats_eq [OF assms(1) ok(2)] types sum ..
qed

section \<open>Whether the updater raises depends on the record and the shape only\<close>

lemma returned_and_then: "returned (and_then r f) = (returned r \<and> returned (f (state_of r)))"
  by (cases r) (simp_all add: and_then_def)

lemma and_then_rel:
  assumes "returned r = returned r'" "sh (state_of r) = sh (state_of r')"
    and "\<And>s s'. sh s = sh s' \<Longrightarrow> returned (f s) = returned (f' s')"
  shows "returned (and_then r f) = returned (and_then r' f')"
  using assms by (simp add: returned_and_then)

lemma for_each_rel:
  assumes "\<And>x s s'. sh s = sh s' \<Longrightarrow> returned (body x s) = returned (body' x s')"
    and "\<And>x s. sh (state_of (body x s)) = sh s" "\<And>x s. sh (state_of (body' x s)) = sh s"
    and "sh s = sh s'"
  shows "returned (for_each body xs s) = returned (for_each body' xs s')"
  using assms(4)
proof (induction xs arbitrary: s s')
  case Nil
  show ?case by simp
next
  case (Cons x xs)
  have r: "returned (body x s) = returned (body' x s')" using Cons.prems by (rule assms(1))
  have sh: "sh (state_of (body x s)) = sh (state_of (body' x s'))"
    using Cons.prems by (simp add: assms(2,3))
  show ?case
  proof (cases "body x s")
    case (Done s1)
    with r obtain s1' where s1': "body' x s' = Done s1'" by (cases "body' x s'") auto
    with Done sh have "sh s1 = sh s1'" by simp
    from Cons.IH [OF this] Done s1' show ?thesis by simp
  next
    case (Raised e s1)
    with r obtain e' s1' where "body' x s' = Raised e' s1'" by (cases "body' x s'") auto
    with Raised show ?thesis by simp
  qed
qed

lemma ucore_ushape: "ucore a = ucore b \<Longrightarrow> ushape a = ushape b"
  by (simp add: ucore_def fs_core_def ushape_def)

lemma fs_core_shape: "fs_core a = fs_core b \<Longrightarrow> fs_shape a = fs_shape b"
  by (simp add: fs_core_def)

lemma inc_value_rel:
  assumes "sf_shape s = sf_shape s'"
  shows "returned (inc_value v s) = returned (inc_value v s')"
  using assms
proof (rule sf_shape_cases)
  fix v1 v2 assume v: "sf_values s = Some v1" "sf_values s' = Some v2" "map fst v1 = map fst v2"
  have eq: "(map_of v1 k = None) = (map_of v2 k = None)" for k
    using arg_cong [OF v(3), of set] by (simp add: map_of_eq_None_iff)
  show ?thesis
  proof (cases v)
    case (JStr k)
    from eq [of k] v(1,2) JStr show ?thesis
      by (cases "map_of v1 k"; cases "map_of v2 k") (simp_all add: inc_value_def)
  qed (simp_all add: inc_value_def v(1,2))
qed (simp add: inc_value_def)

lemma modify_rel:
  assumes "fs_shape fs = fs_shape fs'"
    and g: "\<And>s s'. sf_shape s = sf_shape s' \<Longrightarrow> returned (g s) = returned (g' s')"
  shows "returned (modify_subfield sub g fs) = returned (modify_subfield sub g' fs')"
  using assms(1)
proof (rule fs_shape_cases)
  fix s1 s2 assume s: "fs_subfields fs = Some s1" "fs_subfields fs' = Some s2"
    "subs_shape s1 = subs_shape s2"
  from arg_cong [OF s(3), of "\<lambda>d. map_of d sub"]
  have look: "map_option sf_shape (map_of s1 sub) = map_option sf_shape (map_of s2 sub)"
    by (simp add: subs_shape_def map_of_shape)
  show ?thesis
  proof (cases "map_of s1 sub")
    case None
    with look have "map_of s2 sub = None" by simp
    with None s show ?thesis by (simp add: modify_subfield_def)
  next
    case (Some p)
    with look obtain q where q: "map_of s2 sub = Some q" "sf_shape p = sf_shape q"
      by (cases "map_of s2 sub") auto
    from g [OF q(2)] Some q(1) s show ?thesis
      by (cases "g p"; cases "g' q") (simp_all add: modify_subfield_def)
  qed
qed (simp add: modify_subfield_def)

lemma on_stats_rel:
  assumes "ushape st = ushape st'"
    and "\<And>fs fs'. fs_shape fs = fs_shape fs' \<Longrightarrow> returned (f fs) = returned (f' fs')"
  shows "returned (on_stats f st) = returned (on_stats f' st')"
  using assms(2) [of "fst st" "fst st'"] assms(1)
  by (cases "f (fst st)"; cases "f' (fst st')") (simp_all add: on_stats_def ushape_def)

lemma value_rel:
  assumes "ushape st = ushape st'"
  shows "returned (on_stats (modify_subfield sub (inc_value v)) st)
           = returned (on_stats (modify_subfield sub (inc_value v)) st')"
  using assms by (rule on_stats_rel) (rule modify_rel, assumption, rule inc_value_rel)

lemma sub_of_shape:
  assumes "fs_shape fs = fs_shape fs'"
  shows "(sub_of fs sub = None) = (sub_of fs' sub = None)"
  using assms
proof (rule fs_shape_cases)
  fix s1 s2 assume s: "fs_subfields fs = Some s1" "fs_subfields fs' = Some s2"
    "subs_shape s1 = subs_shape s2"
  from arg_cong [OF s(3), of "\<lambda>d. map_of d sub"]
  have "map_option sf_shape (map_of s1 sub) = map_option sf_shape (map_of s2 sub)"
    by (simp add: subs_shape_def map_of_shape)
  then show ?thesis using s(1,2)
    by (cases "map_of s1 sub"; cases "map_of s2 sub") (auto simp: sub_of_def or_empty_def)
qed (simp add: sub_of_def or_empty_def)

lemma returned_on_stats: "returned (on_stats f st) = returned (f (fst st))"
  by (cases "f (fst st)") (simp_all add: on_stats_def)

lemma returned_modify_total:
  assumes "\<And>s. returned (g s)"
  shows "returned (modify_subfield sub g fs) = (sub_of fs sub \<noteq> None)"
proof (cases "fs_subfields fs")
  case None
  then show ?thesis by (simp add: modify_subfield_def sub_of_def or_empty_def)
next
  case subs: (Some subs)
  show ?thesis
  proof (cases "map_of subs sub")
    case None
    with subs show ?thesis by (simp add: modify_subfield_def sub_of_def or_empty_def)
  next
    case (Some s)
    with assms [of s] subs show ?thesis
      by (cases "g s") (simp_all add: modify_subfield_def sub_of_def or_empty_def)
  qed
qed

lemma returned_mark_seen:
  "returned (and_then (on_stats (modify_subfield sub inc_count) st)
               (\<lambda>st'. Done (fst st', insert sub (snd st')))) = (sub_of (fst st) sub \<noteq> None)"
  by (simp add: returned_and_then returned_on_stats returned_modify_total inc_count_def)

lemma returned_add_instances:
  "returned (on_stats (modify_subfield sub (add_instances n)) st) = (sub_of (fst st) sub \<noteq> None)"
  by (simp add: returned_on_stats returned_modify_total add_instances_def)

lemma returned_count_subfield:
  "returned (count_subfield sub n st) = (sub_of (fst st) sub \<noteq> None)"
proof (cases "sub \<in> snd st")
  case True
  then have c: "count_subfield sub n st
      = and_then (Done st) (on_stats (modify_subfield sub (add_instances n)))"
    by (simp add: count_subfield_def)
  show ?thesis unfolding c by (simp add: and_then_def returned_add_instances)
next
  case False
  let ?X = "and_then (on_stats (modify_subfield sub inc_count) st)
               (\<lambda>st'. Done (fst st', insert sub (snd st')))"
  have "ucore (state_of ?X) = ucore st" by (rule mark_seen_core)
  then have "fs_shape (fst (state_of ?X)) = fs_shape (fst st)"
    by (simp add: ucore_def fs_core_def)
  then have S: "(sub_of (fst (state_of ?X)) sub = None) = (sub_of (fst st) sub = None)"
    by (rule sub_of_shape)
  from False have c: "count_subfield sub n st
      = and_then ?X (on_stats (modify_subfield sub (add_instances n)))"
    by (simp add: count_subfield_def)
  have r: "returned (count_subfield sub n st)
      = (returned ?X \<and> returned (on_stats (modify_subfield sub (add_instances n)) (state_of ?X)))"
    unfolding c by (rule returned_and_then)
  show ?thesis unfolding r returned_mark_seen returned_add_instances S by simp
qed

lemma count_subfield_rel:
  assumes "ushape st = ushape st'"
  shows "returned (count_subfield sub n st) = returned (count_subfield sub n st')"
proof -
  from assms have "fs_shape (fst st) = fs_shape (fst st')" by (simp add: ushape_def)
  then have "(sub_of (fst st) sub = None) = (sub_of (fst st') sub = None)" by (rule sub_of_shape)
  then show ?thesis unfolding returned_count_subfield by simp
qed

lemma count_subfield_ushape: "ushape (state_of (count_subfield sub n st)) = ushape st"
  by (rule ucore_ushape) (rule count_subfield_core)

lemma counted_rel:
  assumes "ushape st = ushape st'"
    and "\<And>t t'. ushape t = ushape t' \<Longrightarrow> returned (g t) = returned (g t')"
  shows "returned (and_then (count_subfield sub n st) g) = returned (and_then (count_subfield sub n st') g)"
proof (rule and_then_rel [where sh = ushape])
  show "returned (count_subfield sub n st) = returned (count_subfield sub n st')"
    using assms(1) by (rule count_subfield_rel)
  show "ushape (state_of (count_subfield sub n st)) = ushape (state_of (count_subfield sub n st'))"
    using assms(1) by (simp add: count_subfield_ushape)
  show "returned (g s) = returned (g s')" if "ushape s = ushape s'" for s s'
    using that by (rule assms(2))
qed

lemma counted_value_rel:
  assumes "ushape st = ushape st'"
  shows "returned (and_then (count_subfield sub n st) (on_stats (modify_subfield sub' (inc_value v))))
       = returned (and_then (count_subfield sub n st') (on_stats (modify_subfield sub' (inc_value v))))"
  using assms by (rule counted_rel) (rule value_rel)

lemma identifier_step_rel:
  assumes "ushape st = ushape st'"
  shows "returned (identifier_step field_config ident st) = returned (identifier_step field_config ident st')"
  unfolding identifier_step_def
  by (simp add: counted_value_rel [OF assms] split: sum.splits option.splits bool.splits)

lemma affiliation_scheme_rel:
  assumes "ushape st = ushape st'"
  shows "returned (affiliation_scheme field_config aff st) = returned (affiliation_scheme field_config aff st')"
  unfolding affiliation_scheme_def
  by (simp add: counted_value_rel [OF assms] split: sum.splits option.splits bool.splits)

lemma affiliation_step_rel:
  assumes "ushape st = ushape st'"
  shows "returned (affiliation_step field_config aff st) = returned (affiliation_step field_config aff st')"
  unfolding affiliation_step_def
  by (simp add: counted_rel [OF assms affiliation_scheme_rel] split: json.splits sum.splits)

lemma funding_value_rel:
  assumes "ushape st = ushape st'"
  shows "returned (funding_value sub expected v st) = returned (funding_value sub expected v st')"
  unfolding funding_value_def
  by (simp add: value_rel [OF assms] split: cfg.splits sum.splits)

lemma funding_branch_rel:
  assumes "ushape st = ushape st'"
  shows "returned (funding_branch sub expected item st) = returned (funding_branch sub expected item st')"
  unfolding funding_branch_def
  by (simp add: counted_rel [OF assms funding_value_rel] split: sum.splits)

lemma nameType_branch_rel:
  assumes "ushape st = ushape st'"
  shows "returned (nameType_branch item st) = returned (nameType_branch item st')"
  unfolding nameType_branch_def
  by (simp add: counted_value_rel [OF assms] split: sum.splits)

lemma identifier_step_ushape: "ushape (state_of (identifier_step field_config ident st)) = ushape st"
  by (rule ucore_ushape) (rule identifier_step_core)

lemma affiliation_step_ushape: "ushape (state_of (affiliation_step field_config aff st)) = ushape st"
  by (rule ucore_ushape) (rule affiliation_step_core)

lemma identifier_loop_rel:
  assumes "ushape t = ushape t'"
  shows "returned (for_each (identifier_step field_config) xs t)
           = returned (for_each (identifier_step field_config) xs t')"
proof (rule for_each_rel [where sh = ushape])
  show "returned (identifier_step field_config x s) = returned (identifier_step field_config x s')" if "ushape s = ushape s'" for x s s'
    using that by (rule identifier_step_rel)
  show "ushape (state_of (identifier_step field_config x s)) = ushape s" for x s
    by (rule identifier_step_ushape)
  show "ushape (state_of (identifier_step field_config x s)) = ushape s" for x s
    by (rule identifier_step_ushape)
qed (rule assms)

lemma affiliation_loop_rel:
  assumes "ushape t = ushape t'"
  shows "returned (for_each (affiliation_step field_config) xs t)
           = returned (for_each (affiliation_step field_config) xs t')"
proof (rule for_each_rel [where sh = ushape])
  show "returned (affiliation_step field_config x s) = returned (affiliation_step field_config x s')" if "ushape s = ushape s'" for x s s'
    using that by (rule affiliation_step_rel)
  show "ushape (state_of (affiliation_step field_config x s)) = ushape s" for x s
    by (rule affiliation_step_ushape)
  show "ushape (state_of (affiliation_step field_config x s)) = ushape s" for x s
    by (rule affiliation_step_ushape)
qed (rule assms)

lemma nameIdentifier_branch_rel:
  assumes "ushape st = ushape st'"
  shows "returned (nameIdentifier_branch field_config item st)
           = returned (nameIdentifier_branch field_config item st')"
  unfolding nameIdentifier_branch_def
  by (simp add: counted_rel [OF assms identifier_loop_rel] split: sum.splits)

lemma affiliation_branch_rel:
  assumes "ushape st = ushape st'"
  shows "returned (affiliation_branch field_config item st)
           = returned (affiliation_branch field_config item st')"
  unfolding affiliation_branch_def
  by (simp add: counted_rel [OF assms affiliation_loop_rel] split: sum.splits)

lemma enumerated_branch_rel:
  assumes "ushape st = ushape st'"
  shows "returned (enumerated_branch sub expected item st) = returned (enumerated_branch sub expected item st')"
  unfolding enumerated_branch_def
  by (simp add: counted_value_rel [OF assms] split: sum.splits bool.splits)

lemma subfield_step_rel:
  assumes "ushape st = ushape st'"
  shows "returned (subfield_step field_name field_config item entry st)
           = returned (subfield_step field_name field_config item entry st')"
  unfolding subfield_step_def Let_def
  by (simp add: funding_branch_rel [OF assms] nameType_branch_rel [OF assms]
      nameIdentifier_branch_rel [OF assms] affiliation_branch_rel [OF assms]
      enumerated_branch_rel [OF assms] del: insert_iff)

lemma subfield_step_ushape:
  "ushape (state_of (subfield_step field_name field_config item entry st)) = ushape st"
  by (rule ucore_ushape) (rule subfield_step_core)

lemma item_step_rel:
  assumes "ushape st = ushape st'"
  shows "returned (item_step field_name field_config item st)
           = returned (item_step field_name field_config item st')"
  unfolding item_step_def
proof (rule for_each_rel [where sh = ushape])
  show "returned (subfield_step field_name field_config item x s) = returned (subfield_step field_name field_config item x s')" if "ushape s = ushape s'" for x s s'
    using that by (rule subfield_step_rel)
  show "ushape (state_of (subfield_step field_name field_config item x s)) = ushape s" for x s
    by (rule subfield_step_ushape)
  show "ushape (state_of (subfield_step field_name field_config item x s)) = ushape s" for x s
    by (rule subfield_step_ushape)
qed (rule assms)

lemma item_step_ushape: "ushape (state_of (item_step field_name field_config item st)) = ushape st"
  by (rule ucore_ushape) (rule item_step_core)

lemma items_rel:
  assumes "ushape st = ushape st'"
  shows "returned (for_each (item_step field_name field_config) items st)
           = returned (for_each (item_step field_name field_config) items st')"
proof (rule for_each_rel [where sh = ushape])
  show "returned (item_step field_name field_config x s) = returned (item_step field_name field_config x s')" if "ushape s = ushape s'" for x s s'
    using that by (rule item_step_rel)
  show "ushape (state_of (item_step field_name field_config x s)) = ushape s" for x s
    by (rule item_step_ushape)
  show "ushape (state_of (item_step field_name field_config x s)) = ushape s" for x s
    by (rule item_step_ushape)
qed (rule assms)

lemma returned_case_outcome:
  "returned (case r of Done st \<Rightarrow> g st | Raised e st \<Rightarrow> Raised e (h st))
     = (returned r \<and> returned (g (state_of r)))"
  by (cases r) simp_all

lemma returned_finish:
  "returned (case r of Done st \<Rightarrow> Done (g st) | Raised e st \<Rightarrow> Raised e (h st)) = returned r"
  by (cases r) simp_all

lemmas modify_shape = modify_core [THEN fs_core_shape]

lemma recompute_step_rel:
  assumes "fs_shape fs = fs_shape fs'"
  shows "returned (recompute_step t sub fs) = returned (recompute_step t' sub fs')"
  using assms
proof (rule fs_shape_cases)
  assume "fs_subfields fs = None" "fs_subfields fs' = None"
  then show ?thesis by (simp add: recompute_step_def)
next
  fix s1 s2 assume s: "fs_subfields fs = Some s1" "fs_subfields fs' = Some s2"
    "subs_shape s1 = subs_shape s2"
  from s(3) have "map fst s1 = map fst s2" by (rule subs_shape_same_keys)
  then have k: "(sub \<in> set (map fst s1)) = (sub \<in> set (map fst s2))" by simp
  have m: "returned (modify_subfield sub (recompute t) fs)
             = returned (modify_subfield sub (recompute t') fs')"
    using assms by (rule modify_rel) (simp add: recompute_def)
  show ?thesis
  proof (cases "sub = ''multiple'' \<or> sub \<notin> set (map fst s1)")
    case True
    with k s(1,2) show ?thesis by (auto simp: recompute_step_def)
  next
    case False
    with k s(1,2) m show ?thesis by (auto simp: recompute_step_def)
  qed
qed

lemma recompute_step_shape: "fs_shape (state_of (recompute_step t sub fs)) = fs_shape fs"
  by (rule fs_core_shape) (rule recompute_step_core)

lemma recompute_loop_rel:
  assumes "fs_shape fs = fs_shape fs'"
  shows "returned (for_each (recompute_step t) ks fs) = returned (for_each (recompute_step t') ks fs')"
proof (rule for_each_rel [where sh = fs_shape])
  show "returned (recompute_step t x s) = returned (recompute_step t' x s')"
    if "fs_shape s = fs_shape s'" for x s s'
    using that by (rule recompute_step_rel)
  show "fs_shape (state_of (recompute_step t x s)) = fs_shape s" for x s
    by (rule recompute_step_shape)
  show "fs_shape (state_of (recompute_step t' x s)) = fs_shape s" for x s
    by (rule recompute_step_shape)
qed (rule assms)

lemma sub_of_shape_eq:
  assumes "fs_shape fs = fs_shape fs'"
  shows "map_option sf_shape (sub_of fs sub) = map_option sf_shape (sub_of fs' sub)"
  using assms
proof (rule fs_shape_cases)
  fix s1 s2 assume s: "fs_subfields fs = Some s1" "fs_subfields fs' = Some s2"
    "subs_shape s1 = subs_shape s2"
  from arg_cong [OF s(3), of "\<lambda>d. map_of d sub"]
  have "map_option sf_shape (map_of s1 sub) = map_option sf_shape (map_of s2 sub)"
    by (simp add: subs_shape_def map_of_shape)
  then show ?thesis using s(1,2) by (simp add: sub_of_def or_empty_def)
qed (simp add: sub_of_def or_empty_def)

lemma single_values_rel:
  assumes "fs_shape a = fs_shape b"
  shows "returned (case map_of (or_empty (fs_subfields a)) sub of
             Some s \<Rightarrow> if sf_values s \<noteq> None
                       then modify_subfield sub (inc_value v) a
                       else Done a
           | None \<Rightarrow> Raised KeyError a)
       = returned (case map_of (or_empty (fs_subfields b)) sub of
             Some s \<Rightarrow> if sf_values s \<noteq> None
                       then modify_subfield sub (inc_value v) b
                       else Done b
           | None \<Rightarrow> Raised KeyError b)"
proof -
  have m: "returned (modify_subfield sub (inc_value v) a) = returned (modify_subfield sub (inc_value v) b)"
    using assms by (rule modify_rel) (rule inc_value_rel)
  note eq = sub_of_shape_eq [OF assms, of sub, unfolded sub_of_def]
  show ?thesis
  proof (cases "map_of (or_empty (fs_subfields a)) sub")
    case None
    with eq have "map_of (or_empty (fs_subfields b)) sub = None" by simp
    with None show ?thesis by simp
  next
    case (Some p)
    with eq obtain q where q: "map_of (or_empty (fs_subfields b)) sub = Some q" "sf_shape p = sf_shape q"
      by (cases "map_of (or_empty (fs_subfields b)) sub") auto
    from q(2) have "(sf_values p = None) = (sf_values q = None)"
      by (cases "sf_values p"; cases "sf_values q") (simp_all add: sf_shape_def)
    with Some q(1) m show ?thesis by auto
  qed
qed

lemma single_values_shape:
  "fs_shape (state_of (case map_of (or_empty (fs_subfields fs2)) subfield of
             Some s \<Rightarrow> if sf_values s \<noteq> None
                       then modify_subfield subfield (inc_value v) fs2
                       else Done fs2
           | None \<Rightarrow> Raised KeyError fs2)) = fs_shape fs2"
  by (rule fs_core_shape) (rule single_values_core)

lemma single_count_rel:
  assumes "fs_shape fs = fs_shape fs'"
  shows "returned (single_count t sub v fs) = returned (single_count t' sub v fs')"
  unfolding single_count_def
  apply (rule and_then_rel [where sh = fs_shape])
    apply (rule modify_rel, rule assms, simp add: inc_count_def)
   apply (simp add: modify_shape assms)
  apply (rule and_then_rel [where sh = fs_shape])
    apply (rule modify_rel, assumption, simp add: add_instances_def)
   apply (simp add: modify_shape)
  apply (rule and_then_rel [where sh = fs_shape])
    apply (rule single_values_rel, assumption)
   apply (simp only: single_values_shape)
  apply (rule modify_rel, assumption, simp add: recompute_def)
  done

lemma single_step_rel:
  assumes "fs_shape fs = fs_shape fs'"
  shows "returned (single_step t fv entry fs) = returned (single_step t' fv entry fs')"
  using assms
proof (rule fs_shape_cases)
  assume "fs_subfields fs = None" "fs_subfields fs' = None"
  then show ?thesis
    by (simp add: single_step_def Let_def split: sum.splits bool.splits)
next
  fix s1 s2 assume s: "fs_subfields fs = Some s1" "fs_subfields fs' = Some s2"
    "subs_shape s1 = subs_shape s2"
  from s(3) have "map fst s1 = map fst s2" by (rule subs_shape_same_keys)
  then have k: "(fst entry \<in> set (map fst s1)) = (fst entry \<in> set (map fst s2))" by simp
  note c = single_count_rel [OF assms, of t "fst entry" _ t']
  show ?thesis
  proof (cases "fst entry \<in> set (map fst s1)")
    case True
    with k s(1,2) c show ?thesis
      by (auto simp: single_step_def Let_def split: sum.splits bool.splits)
  next
    case False
    with k s(1,2) show ?thesis
      by (auto simp: single_step_def Let_def split: sum.splits bool.splits)
  qed
qed

lemma single_step_shape: "fs_shape (state_of (single_step t fv entry fs)) = fs_shape fs"
  by (rule fs_core_shape) (rule single_step_core)

lemma single_loop_rel:
  assumes "fs_shape fs = fs_shape fs'"
  shows "returned (for_each (single_step t fv) cfg fs) = returned (for_each (single_step t' fv) cfg fs')"
proof (rule for_each_rel [where sh = fs_shape])
  show "returned (single_step t fv x s) = returned (single_step t' fv x s')"
    if "fs_shape s = fs_shape s'" for x s s'
    using that by (rule single_step_rel)
  show "fs_shape (state_of (single_step t fv x s)) = fs_shape s" for x s
    by (rule single_step_shape)
  show "fs_shape (state_of (single_step t' fv x s)) = fs_shape s" for x s
    by (rule single_step_shape)
qed (rule assms)

lemma list_branch_rel:
  assumes "fs_shape fs = fs_shape fs'"
  shows "returned (case for_each (item_step n cfg) items (fs, {}) of
                     Raised e st \<Rightarrow> Raised e (fst st)
                   | Done st \<Rightarrow> for_each (recompute_step t) ks (fst st))
       = returned (case for_each (item_step n cfg) items (fs', {}) of
                     Raised e st \<Rightarrow> Raised e (fst st)
                   | Done st \<Rightarrow> for_each (recompute_step t') ks (fst st))"
proof -
  let ?r = "for_each (item_step n cfg) items (fs, {})"
  let ?r' = "for_each (item_step n cfg) items (fs', {})"
  have "ushape (fs, {}) = ushape (fs', {})" using assms by (simp add: ushape_def)
  then have 1: "returned ?r = returned ?r'" by (rule items_rel)
  have "fs_shape (fst (state_of ?r)) = fs_shape fs" "fs_shape (fst (state_of ?r')) = fs_shape fs'"
    by (rule fs_core_shape, rule items_core)+
  with assms have "fs_shape (fst (state_of ?r)) = fs_shape (fst (state_of ?r'))" by simp
  then have 3: "returned (for_each (recompute_step t) ks (fst (state_of ?r)))
              = returned (for_each (recompute_step t') ks (fst (state_of ?r')))"
    by (rule recompute_loop_rel)
  show ?thesis unfolding returned_case_outcome using 1 3 by simp
qed

lemma update_subfield_stats_rel:
  assumes "fs_shape fs = fs_shape fs'"
  shows "returned (update_subfield_stats v n fs t) = returned (update_subfield_stats v n fs' t')"
proof -
  have i: "fs_shape (fs\<lparr>fs_instances := x\<rparr>) = fs_shape (fs'\<lparr>fs_instances := y\<rparr>)" for x y
    using assms by (simp add: fs_shape_def)
  show ?thesis
  proof (cases "truthy v \<and> map_of SUBFIELD_STATS n \<noteq> None")
    case False
    then show ?thesis by (auto simp: update_subfield_stats_def)
  next
    case True
    then obtain cfg where c: "map_of SUBFIELD_STATS n = Some cfg" "truthy v" by auto
    show ?thesis
    proof (cases "\<exists>items. v = JList items")
      case True
      then obtain items where v: "v = JList items" ..
      have u: "update_subfield_stats v n g t0 =
          (case for_each (item_step n cfg) items (g\<lparr>fs_instances := fs_instances g + int (length items)\<rparr>, {}) of
             Raised e st \<Rightarrow> Raised e (fst st)
           | Done st \<Rightarrow> for_each (recompute_step t0) (map fst cfg) (fst st))" for g t0
        using c unfolding update_subfield_stats_def v by simp
      show ?thesis unfolding u by (rule list_branch_rel) (rule i)
    next
      case False
      have u: "update_subfield_stats v n g t0 =
          (if n = ''fundingReferences'' then Done g
           else for_each (single_step t0 v) cfg (g\<lparr>fs_instances := fs_instances g + 1\<rparr>))" for g t0
        using c False by (cases v) (simp_all add: update_subfield_stats_def)
      show ?thesis
      proof (cases "n = ''fundingReferences''")
        case True
        then show ?thesis unfolding u by simp
      next
        case False
        have "returned (for_each (single_step t v) cfg (fs\<lparr>fs_instances := fs_instances fs + 1\<rparr>))
            = returned (for_each (single_step t' v) cfg (fs'\<lparr>fs_instances := fs_instances fs' + 1\<rparr>))"
          by (rule single_loop_rel) (rule i)
        with False show ?thesis unfolding u by simp
      qed
    qed
  qed
qed

lemma field_step_returned:
  assumes "map_of (st_fields x) n = Some f"
  shows "returned (field_step rec t0 n x)
       = returned (if n \<in> set (map fst SUBFIELD_STATS) \<and> truthy (record_get rec n)
                   then update_subfield_stats (record_get rec n) n
                          (update_field_stats (record_get rec n) f n) t0
                   else Done (update_field_stats (record_get rec n) f n))"
  unfolding field_step_def Let_def assms option.case by (rule returned_finish)

lemma field_step_rel:
  assumes "map_option fs_shape (map_of (st_fields a) n) = map_option fs_shape (map_of (st_fields b) n)"
  shows "returned (field_step rec t n a) = returned (field_step rec t' n b)"
proof (cases "map_of (st_fields a) n")
  case None
  with assms have "map_of (st_fields b) n = None" by simp
  with None show ?thesis by (simp add: field_step_missing)
next
  case (Some fa)
  with assms obtain fb where fb: "map_of (st_fields b) n = Some fb" "fs_shape fa = fs_shape fb"
    by (cases "map_of (st_fields b) n") auto
  let ?v = "record_get rec n"
  have "fs_shape (update_field_stats ?v fa n) = fs_shape (update_field_stats ?v fb n)"
    using fb(2) by (simp add: update_field_stats_facts)
  then have "returned (update_subfield_stats ?v n (update_field_stats ?v fa n) t)
         = returned (update_subfield_stats ?v n (update_field_stats ?v fb n) t')"
    by (rule update_subfield_stats_rel)
  then show ?thesis unfolding field_step_returned [OF Some] field_step_returned [OF fb(1)] by simp
qed

section \<open>What a record adds to the counts does not depend on the tree\<close>

lemma field_step_delta:
  "count_in (state_of (field_step rec t n a)) k =
     count_in a k + (if k = n \<and> map_of (st_fields a) n \<noteq> None \<and> truthy (record_get rec n) then 1 else 0)"
proof (cases "map_of (st_fields a) n")
  case None
  then show ?thesis by (simp add: field_step_missing)
next
  case (Some fs)
  from field_step_fields [OF Some, of rec t] obtain fs' where
    st: "state_of (field_step rec t n a) = a\<lparr>st_fields := dict_set (st_fields a) n fs'\<rparr>"
    and c: "fs_count fs' = fs_count fs + (if truthy (record_get rec n) then 1 else 0)"
    by blast
  show ?thesis unfolding st using Some c
    by (simp add: count_in_def map_of_dict_set_eq fs_get_count_def)
qed

lemma field_step_shape:
  "fields_shape (st_fields (state_of (field_step rec t n a))) = fields_shape (st_fields a)"
proof (cases "map_of (st_fields a) n")
  case None
  then show ?thesis by (simp add: field_step_missing)
next
  case (Some fs)
  from field_step_fields [OF Some, of rec t] obtain fs' where
    st: "state_of (field_step rec t n a) = a\<lparr>st_fields := dict_set (st_fields a) n fs'\<rparr>"
    and s: "fs_shape fs' = fs_shape fs"
    by blast
  show ?thesis unfolding st using fields_shape_dict_set [OF Some s] by simp
qed

lemma field_loop_rel:
  assumes "fields_shape (st_fields a) = fields_shape (st_fields b)"
  shows "returned (for_each (field_step rec t) names a) = returned (for_each (field_step rec t') names b) \<and>
         (\<forall>k. count_in (state_of (for_each (field_step rec t) names a)) k - count_in a k
            = count_in (state_of (for_each (field_step rec t') names b)) k - count_in b k)"
  using assms
proof (induction names arbitrary: a b)
  case Nil
  show ?case by simp
next
  case (Cons n names)
  let ?a1 = "field_step rec t n a" and ?b1 = "field_step rec t' n b"
  from shape_lookup [OF refl, of "st_fields a" n] shape_lookup [OF refl, of "st_fields b" n] Cons.prems
  have look: "map_option fs_shape (map_of (st_fields a) n) = map_option fs_shape (map_of (st_fields b) n)"
    by simp
  then have r: "returned ?a1 = returned ?b1" by (rule field_step_rel)
  from look have none: "(map_of (st_fields a) n = None) = (map_of (st_fields b) n = None)"
    by (cases "map_of (st_fields a) n"; cases "map_of (st_fields b) n") simp_all
  have d: "count_in (state_of ?a1) k - count_in a k = count_in (state_of ?b1) k - count_in b k" for k
    by (simp add: field_step_delta none)
  have s: "fields_shape (st_fields (state_of ?a1)) = fields_shape (st_fields (state_of ?b1))"
    using Cons.prems by (simp add: field_step_shape)
  show ?case
  proof (cases ?a1)
    case (Done a')
    with r obtain b' where b': "?b1 = Done b'" by (cases ?b1) auto
    from s Done b' have "fields_shape (st_fields a') = fields_shape (st_fields b')" by simp
    from Cons.IH [OF this]
    have ih1: "returned (for_each (field_step rec t) names a') = returned (for_each (field_step rec t') names b')"
      and ih2: "count_in (state_of (for_each (field_step rec t) names a')) k - count_in a' k
              = count_in (state_of (for_each (field_step rec t') names b')) k - count_in b' k" for k
      by simp_all
    have "count_in (state_of (for_each (field_step rec t) names a')) k - count_in a k
        = count_in (state_of (for_each (field_step rec t') names b')) k - count_in b k" for k
      using d [of k] ih2 [of k] Done b' by simp
    with ih1 Done b' show ?thesis by simp
  next
    case (Raised e a')
    with r obtain e' b' where b': "?b1 = Raised e' b'" by (cases ?b1) auto
    have "count_in a' k - count_in a k = count_in b' k - count_in b k" for k
      using d [of k] Raised b' by simp
    with Raised b' show ?thesis by simp
  qed
qed

lemma update_tree_loop:
  "returned (update_tree rec x) =
     returned (for_each (field_step rec (st_count x + 1)) (map fst FIELD_STATUS) (x\<lparr>st_count := st_count x + 1\<rparr>))"
  "count_in (state_of (update_tree rec x)) k =
     count_in (state_of (for_each (field_step rec (st_count x + 1)) (map fst FIELD_STATUS)
        (x\<lparr>st_count := st_count x + 1\<rparr>))) k"
  by (cases "for_each (field_step rec (st_count x + 1)) (map fst FIELD_STATUS) (x\<lparr>st_count := st_count x + 1\<rparr>)";
      simp add: update_tree_def Let_def count_in_def)+

lemma update_tree_rel:
  assumes "fields_shape (st_fields a) = fields_shape (st_fields b)"
  shows "returned (update_tree rec a) = returned (update_tree rec b)"
    and "count_in (state_of (update_tree rec a)) k - count_in a k
       = count_in (state_of (update_tree rec b)) k - count_in b k"
proof -
  let ?a = "a\<lparr>st_count := st_count a + 1\<rparr>" and ?b = "b\<lparr>st_count := st_count b + 1\<rparr>"
  have s: "fields_shape (st_fields ?a) = fields_shape (st_fields ?b)" using assms by simp
  have c: "count_in ?a k = count_in a k" "count_in ?b k = count_in b k" by (simp_all add: count_in_def)
  note l = field_loop_rel [OF s, of rec "st_count a + 1" "map fst FIELD_STATUS" "st_count b + 1"]
  from l show "returned (update_tree rec a) = returned (update_tree rec b)"
    unfolding update_tree_loop by (rule conjunct1)
  from l have "count_in (state_of (for_each (field_step rec (st_count a + 1)) (map fst FIELD_STATUS) ?a)) k - count_in ?a k
      = count_in (state_of (for_each (field_step rec (st_count b + 1)) (map fst FIELD_STATUS) ?b)) k - count_in ?b k"
    by simp
  then show "count_in (state_of (update_tree rec a)) k - count_in a k
       = count_in (state_of (update_tree rec b)) k - count_in b k"
    unfolding update_tree_loop c .
qed

text \<open>The trees of an entity after one record: the summary is updated; the tree of the
  record's resource type is updated when the summary update returned; no other tree
  changes.\<close>

lemma tree_at_fold_record:
  "tree_at (fold_record e rec) sel =
     (case sel of
        None \<Rightarrow> Some (state_of (update_tree rec (summary e)))
      | Some k \<Rightarrow>
          if returned (update_tree rec (summary e)) \<and> resource_type_of rec = JStr k \<and> truthy (JStr k)
          then map_option (\<lambda>t. state_of (update_tree rec t)) (map_of (byResourceType e) k)
          else map_of (byResourceType e) k)"
proof (cases "update_tree rec (summary e)")
  case (Raised x s)
  then show ?thesis
    by (simp add: fold_record_def update_stats_single_record_def tree_at_def split: option.splits)
next
  case (Done s)
  show ?thesis
  proof (cases "\<exists>k. resource_type_of rec = JStr k \<and> truthy (JStr k)")
    case False
    then have "fold_record e rec = e\<lparr>summary := s\<rparr>"
      using Done
      by (cases "resource_type_of rec")
         (auto simp: fold_record_def update_stats_single_record_def Let_def)
    with False Done show ?thesis by (auto simp: tree_at_def split: option.splits)
  next
    case True
    then obtain k where k: "resource_type_of rec = JStr k" "truthy (JStr k)" by blast
    show ?thesis
    proof (cases "map_of (byResourceType e) k")
      case None
      then have "fold_record e rec = e\<lparr>summary := s\<rparr>"
        using Done k by (simp add: fold_record_def update_stats_single_record_def Let_def)
      with None Done k show ?thesis by (auto simp: tree_at_def split: option.splits)
    next
      case (Some ts)
      then have "fold_record e rec = e\<lparr>summary := s,
          byResourceType := dict_set (byResourceType e) k (state_of (update_tree rec ts))\<rparr>"
        using Done k
        by (cases "update_tree rec ts")
           (simp_all add: fold_record_def update_stats_single_record_def Let_def)
      with Some Done k show ?thesis
        by (auto simp: tree_at_def map_of_dict_set_eq split: option.splits)
    qed
  qed
qed

lemma entity_ok_tree_at:
  assumes "entity_ok a" "entity_ok b"
  shows "(tree_at a sel = None \<and> tree_at b sel = None) \<or>
         (\<exists>ta tb. tree_at a sel = Some ta \<and> tree_at b sel = Some tb \<and> tree_ok ta \<and> tree_ok tb)"
proof (cases sel)
  case None
  with assms show ?thesis by (simp add: tree_at_def entity_ok_def)
next
  case (Some rt)
  show ?thesis
  proof (cases "rt \<in> set resourceTypeGeneral_values")
    case True
    from entity_ok_lookup [OF assms(1) True] entity_ok_lookup [OF assms(2) True] Some
    show ?thesis by (auto simp: tree_at_def)
  next
    case False
    with assms have "rt \<notin> set (map fst (byResourceType a))" "rt \<notin> set (map fst (byResourceType b))"
      by (simp_all add: entity_ok_def)
    then have "map_of (byResourceType a) rt = None" "map_of (byResourceType b) rt = None"
      by (simp_all add: map_of_eq_None_iff)
    with Some show ?thesis by (simp add: tree_at_def)
  qed
qed

lemma fold_record_delta:
  assumes "entity_ok a" "entity_ok b"
  shows "field_count (fold_record a rec) sel k - field_count a sel k
       = field_count (fold_record b rec) sel k - field_count b sel k"
    and "record_count (fold_record a rec) sel - record_count a sel
       = record_count (fold_record b rec) sel - record_count b sel"
proof -
  have shape: "fields_shape (st_fields ta) = fields_shape (st_fields tb)" if "tree_ok ta" "tree_ok tb" for ta tb
    using that by (simp add: tree_ok_def)
  from assms have "tree_ok (summary a)" "tree_ok (summary b)" by (simp_all add: entity_ok_def)
  then have sum: "fields_shape (st_fields (summary a)) = fields_shape (st_fields (summary b))"
    by (rule shape)
  note ret = update_tree_rel(1) [OF sum, of rec]
  have both: "field_count (fold_record a rec) sel k - field_count a sel k
       = field_count (fold_record b rec) sel k - field_count b sel k \<and>
     record_count (fold_record a rec) sel - record_count a sel
       = record_count (fold_record b rec) sel - record_count b sel"
  proof (cases sel)
    case None
    with update_tree_rel(2) [OF sum, of rec k] show ?thesis
      by (simp add: field_count_def record_count_def tree_at_fold_record st_get_count_def
          update_tree_count) (simp add: tree_at_def)
  next
    case (Some rt)
    from entity_ok_tree_at [OF assms, of sel] show ?thesis
    proof (elim disjE conjE exE)
      assume "tree_at a sel = None" "tree_at b sel = None"
      with Some have "map_of (byResourceType a) rt = None" "map_of (byResourceType b) rt = None"
        by (simp_all add: tree_at_def)
      with Some show ?thesis
        by (simp add: field_count_def record_count_def tree_at_fold_record st_get_count_def)
           (simp add: tree_at_def st_get_count_def)
    next
      fix ta tb assume t: "tree_at a sel = Some ta" "tree_at b sel = Some tb" "tree_ok ta" "tree_ok tb"
      with Some have m: "map_of (byResourceType a) rt = Some ta" "map_of (byResourceType b) rt = Some tb"
        by (simp_all add: tree_at_def)
      from shape [OF t(3,4)] have d: "count_in (state_of (update_tree rec ta)) k - count_in ta k
          = count_in (state_of (update_tree rec tb)) k - count_in tb k"
        by (rule update_tree_rel(2))
      show ?thesis
      proof (cases "returned (update_tree rec (summary a)) \<and> resource_type_of rec = JStr rt \<and> truthy (JStr rt)")
        case True
        with ret have "returned (update_tree rec (summary b)) \<and> resource_type_of rec = JStr rt \<and> truthy (JStr rt)"
          by simp
        with True Some m d show ?thesis
          by (simp add: field_count_def record_count_def tree_at_fold_record st_get_count_def
              update_tree_count) (simp add: tree_at_def st_get_count_def)
      next
        case False
        with ret have "\<not> (returned (update_tree rec (summary b)) \<and> resource_type_of rec = JStr rt \<and> truthy (JStr rt))"
          by simp
        then have "tree_at (fold_record b rec) sel = Some tb"
          using Some m by (auto simp: tree_at_fold_record)
        moreover have "tree_at (fold_record a rec) sel = Some ta"
          using False Some m by (auto simp: tree_at_fold_record)
        ultimately show ?thesis using t(1,2)
          by (simp add: field_count_def record_count_def)
      qed
    qed
  qed
  from both show "field_count (fold_record a rec) sel k - field_count a sel k
       = field_count (fold_record b rec) sel k - field_count b sel k" ..
  from both show "record_count (fold_record a rec) sel - record_count a sel
       = record_count (fold_record b rec) sel - record_count b sel" ..
qed

section \<open>Counts of merged statistics and of the records processed together\<close>

lemma merge_field_count: "fs_count (merge_field t x y) = fs_get_count x + fs_get_count y"
  by (simp add: merge_field_def Let_def)

lemma count_in_outside:
  assumes "tree_ok a" "k \<notin> set field_names"
  shows "count_in a k = 0"
proof -
  from assms(1) have "map fst (st_fields a) = field_names"
    by (simp add: tree_ok_def schema_fields_keys)
  with assms(2) have "map_of (st_fields a) k = None"
    by (metis map_of_eq_None_iff list.set_map)
  then show ?thesis by (simp add: count_in_def fs_get_count_def)
qed

lemma merge_tree_counts:
  assumes "tree_ok a" "tree_ok b"
  shows "count_in (merge_type_stats (Some a) (Some b)) k = count_in a k + count_in b k"
    and "st_count (merge_type_stats (Some a) (Some b)) = st_count a + st_count b"
proof -
  show "st_count (merge_type_stats (Some a) (Some b)) = st_count a + st_count b"
    by (simp add: merge_type_stats_eq [OF assms])
  show "count_in (merge_type_stats (Some a) (Some b)) k = count_in a k + count_in b k"
  proof (cases "k \<in> set field_names")
    case True
    then show ?thesis
      by (simp add: merge_type_stats_eq [OF assms] count_in_def map_of_map_keys merge_field_count
          fs_get_count_def)
  next
    case False
    with count_in_outside [OF assms(1) False] count_in_outside [OF assms(2) False] show ?thesis
      by (simp add: merge_type_stats_eq [OF assms] count_in_def map_of_map_keys fs_get_count_def)
  qed
qed

lemma tree_at_merge_stats:
  assumes "entity_ok a" "entity_ok b"
  shows "tree_at (merge_stats a b) sel =
     (case sel of
        None \<Rightarrow> Some (merge_type_stats (Some (summary a)) (Some (summary b)))
      | Some rt \<Rightarrow>
          if rt \<in> set resourceTypeGeneral_values
          then Some (merge_type_stats (map_of (byResourceType a) rt) (map_of (byResourceType b) rt))
          else None)"
  by (cases sel) (simp_all add: tree_at_def merge_stats_eq [OF assms] map_of_map_keys)

lemma merge_stats_counts:
  assumes "entity_ok a" "entity_ok b"
  shows "field_count (merge_stats a b) sel k = field_count a sel k + field_count b sel k"
    and "record_count (merge_stats a b) sel = record_count a sel + record_count b sel"
proof -
  have "field_count (merge_stats a b) sel k = field_count a sel k + field_count b sel k \<and>
        record_count (merge_stats a b) sel = record_count a sel + record_count b sel"
  proof (cases sel)
    case None
    from assms have "tree_ok (summary a)" "tree_ok (summary b)" by (simp_all add: entity_ok_def)
    from merge_tree_counts [OF this] None show ?thesis
      by (simp add: field_count_def record_count_def tree_at_merge_stats [OF assms] st_get_count_def)
         (simp add: tree_at_def)
  next
    case (Some rt)
    show ?thesis
    proof (cases "rt \<in> set resourceTypeGeneral_values")
      case True
      from entity_ok_lookup [OF assms(1) True] entity_ok_lookup [OF assms(2) True]
      obtain ta tb where t: "map_of (byResourceType a) rt = Some ta" "tree_ok ta"
        "map_of (byResourceType b) rt = Some tb" "tree_ok tb" by blast
      from merge_tree_counts [OF t(2,4)] t(1,3) True Some show ?thesis
        by (simp add: field_count_def record_count_def tree_at_merge_stats [OF assms] st_get_count_def)
           (simp add: tree_at_def)
    next
      case False
      with assms have "rt \<notin> set (map fst (byResourceType a))" "rt \<notin> set (map fst (byResourceType b))"
        by (simp_all add: entity_ok_def)
      then have "map_of (byResourceType a) rt = None" "map_of (byResourceType b) rt = None"
        by (simp_all add: map_of_eq_None_iff)
      with False Some show ?thesis
        by (simp add: field_count_def record_count_def tree_at_merge_stats [OF assms] st_get_count_def)
           (simp add: tree_at_def)
    qed
  qed
  then show "field_count (merge_stats a b) sel k = field_count a sel k + field_count b sel k"
    and "record_count (merge_stats a b) sel = record_count a sel + record_count b sel"
    by simp_all
qed

lemma empty_tree_counts: "count_in create_empty_tree k = 0"
proof (cases "map_of (st_fields create_empty_tree) k")
  case None
  then show ?thesis by (simp add: count_in_def fs_get_count_def)
next
  case (Some f)
  then have "(k, f) \<in> set (st_fields create_empty_tree)" by (rule map_of_SomeD)
  then obtain s where "f = create_empty_field_stats k s"
    by (auto simp: create_empty_tree_def)
  with Some show ?thesis by (simp add: count_in_def fs_get_count_def empty_field_counts)
qed

lemma empty_stats_counts:
  "field_count create_empty_stats sel k = 0" "record_count create_empty_stats sel = 0"
proof -
  have "tree_at create_empty_stats sel = None \<or> tree_at create_empty_stats sel = Some create_empty_tree"
    by (cases sel) (simp_all add: tree_at_def create_empty_stats_def map_of_map_keys)
  then show "field_count create_empty_stats sel k = 0" "record_count create_empty_stats sel = 0"
    by (auto simp: field_count_def record_count_def st_get_count_def empty_tree_counts empty_tree_count)
qed

lemma foldl_fold_record_ok: "entity_ok e \<Longrightarrow> entity_ok (foldl fold_record e rs)"
  by (induction rs arbitrary: e) (simp_all add: fold_record_ok)

lemma built_foldl: "built e \<Longrightarrow> built (foldl fold_record e rs)"
  by (induction rs arbitrary: e) (simp_all add: built_record)

lemma built_fold_records: "built (fold_records rs)"
  unfolding fold_records_def by (rule built_foldl) (rule built_empty)

lemma fold_records_ok: "entity_ok (fold_records rs)"
  by (rule built_ok) (rule built_fold_records)

text \<open>Processing records on top of statistics \<open>e\<close> adds to every count what processing them
  from the factory's statistics gives.\<close>

lemma foldl_fold_record_counts:
  assumes "entity_ok e"
  shows "field_count (foldl fold_record e rs) sel k = field_count e sel k + field_count (fold_records rs) sel k \<and>
         record_count (foldl fold_record e rs) sel = record_count e sel + record_count (fold_records rs) sel"
proof (induction rs rule: rev_induct)
  case Nil
  show ?case by (simp add: fold_records_def empty_stats_counts)
next
  case (snoc r rs)
  let ?E = "foldl fold_record e rs" and ?F = "fold_records rs"
  have ok: "entity_ok ?E" "entity_ok ?F"
    using assms by (simp_all add: foldl_fold_record_ok fold_records_ok)
  have step: "foldl fold_record e (rs @ [r]) = fold_record ?E r"
    "fold_records (rs @ [r]) = fold_record ?F r"
    by (simp_all add: fold_records_def)
  from fold_record_delta(1) [OF ok, of r sel k] fold_record_delta(2) [OF ok, of r sel] snoc.IH
  show ?case unfolding step by simp
qed

lemma fold_records_append_counts:
  "field_count (fold_records (rs1 @ rs2)) sel k
     = field_count (fold_records rs1) sel k + field_count (fold_records rs2) sel k"
  "record_count (fold_records (rs1 @ rs2)) sel
     = record_count (fold_records rs1) sel + record_count (fold_records rs2) sel"
proof -
  have "fold_records (rs1 @ rs2) = foldl fold_record (fold_records rs1) rs2"
    by (simp add: fold_records_def)
  with foldl_fold_record_counts [OF fold_records_ok, of rs1 rs2 sel k]
  show "field_count (fold_records (rs1 @ rs2)) sel k
     = field_count (fold_records rs1) sel k + field_count (fold_records rs2) sel k"
    "record_count (fold_records (rs1 @ rs2)) sel
     = record_count (fold_records rs1) sel + record_count (fold_records rs2) sel"
    by simp_all
qed

lemma foldl_merge_counts:
  assumes "built e"
  shows "field_count (foldl merge_stats e (map fold_records parts)) sel k
           = field_count e sel k + field_count (fold_records (concat parts)) sel k \<and>
         record_count (foldl merge_stats e (map fold_records parts)) sel
           = record_count e sel + record_count (fold_records (concat parts)) sel"
  using assms
proof (induction parts arbitrary: e)
  case Nil
  show ?case by (simp add: fold_records_def empty_stats_counts)
next
  case (Cons p ps)
  have b: "built (merge_stats e (fold_records p))"
    using Cons.prems built_fold_records by (rule built_merge)
  have ok: "entity_ok e" "entity_ok (fold_records p)"
    using Cons.prems by (simp_all add: built_ok fold_records_ok)
  from Cons.IH [OF b] show ?case
    by (simp add: merge_stats_counts [OF ok] fold_records_append_counts)
qed

text \<open>
  Claim C3. Partial statistics are the factory's statistics with the records of one part
  folded in (a record that raises leaves what it had counted). For statistics \<open>a\<close>, \<open>b\<close>, \<open>c\<close>
  built by the program, \<open>merge_stats\<close> is commutative and associative: merging in any order
  and any association gives the identical statistics, with every field, subfield and value
  counter. The count of every field and the record count, in the summary and in the tree of
  every resource type, of the merge of two partial statistics are those of the statistics
  obtained by processing the records of both parts together; and so are those of the partial
  statistics of any number of parts merged one after the other.
\<close>

theorem merge_determinism:
  assumes "built a" "built b" "built c"
  shows "merge_stats a b = merge_stats b a \<and>
         merge_stats (merge_stats a b) c = merge_stats a (merge_stats b c) \<and>
         field_count (merge_stats (fold_records rs1) (fold_records rs2)) sel field
           = field_count (fold_records (rs1 @ rs2)) sel field \<and>
         record_count (merge_stats (fold_records rs1) (fold_records rs2)) sel
           = record_count (fold_records (rs1 @ rs2)) sel \<and>
         field_count (foldl merge_stats (fold_records rs1) (map fold_records parts)) sel field
           = field_count (fold_records (concat (rs1 # parts))) sel field \<and>
         record_count (foldl merge_stats (fold_records rs1) (map fold_records parts)) sel
           = record_count (fold_records (concat (rs1 # parts))) sel"
proof -
  note ok = assms [THEN built_ok]
  have 1: "merge_stats a b = merge_stats b a" using ok(1,2) by (rule merge_stats_comm)
  have 2: "merge_stats (merge_stats a b) c = merge_stats a (merge_stats b c)"
    using ok by (rule merge_stats_assoc)
  have 3: "field_count (merge_stats (fold_records rs1) (fold_records rs2)) sel field
           = field_count (fold_records (rs1 @ rs2)) sel field"
    by (simp add: merge_stats_counts [OF fold_records_ok fold_records_ok] fold_records_append_counts)
  have 4: "record_count (merge_stats (fold_records rs1) (fold_records rs2)) sel
           = record_count (fold_records (rs1 @ rs2)) sel"
    by (simp add: merge_stats_counts [OF fold_records_ok fold_records_ok] fold_records_append_counts)
  from foldl_merge_counts [OF built_fold_records, of rs1 parts sel field]
  have 5: "field_count (foldl merge_stats (fold_records rs1) (map fold_records parts)) sel field
           = field_count (fold_records (concat (rs1 # parts))) sel field"
    and 6: "record_count (foldl merge_stats (fold_records rs1) (map fold_records parts)) sel
           = record_count (fold_records (concat (rs1 # parts))) sel"
    by (simp_all add: fold_records_append_counts)
  from 1 2 3 4 5 6 show ?thesis by blast
qed

theorem merge_determinism_witness:
  "built (fold_record create_empty_stats one_creator) \<and> built create_empty_stats \<and>
   merge_stats (fold_record create_empty_stats one_creator) create_empty_stats
     = merge_stats create_empty_stats (fold_record create_empty_stats one_creator) \<and>
   record_count (merge_stats (fold_records [one_creator]) (fold_records [])) None = 1"
proof -
  have a: "built (fold_record create_empty_stats one_creator)"
    by (intro built.intros)
  have b: "built create_empty_stats" by (rule built_empty)
  have "record_count (fold_records ([one_creator] @ [])) None = 1"
    by (simp add: record_count_def tree_at_def st_get_count_def fold_records_def fold_record_count
        empty_summary_count)
  with merge_determinism [OF a b b, of "[one_creator]" "[]" None] a b show ?thesis by simp
qed

section \<open>Categories on the paths that complete\<close>

text \<open>The factory, an update that returns and a merge leave a tree whose stored categories
  are those \<open>calculate_category_metrics\<close> gives for its fields and record count, and, for the
  update and the merge, whose fields store \<open>count / total\<close> as their completeness.\<close>

lemma merge_categories:
  "st_categories (merge_type_stats a b)
     = calculate_category_metrics (st_fields (merge_type_stats a b)) (st_count (merge_type_stats a b))"
  by (simp add: merge_type_stats_def Let_def)

lemma factory_categories:
  "st_categories create_empty_tree
     = calculate_category_metrics (st_fields create_empty_tree) (st_count create_empty_tree)"
  by (simp add: create_empty_tree_def calculate_category_metrics_def category_completeness_def
      accumulate_eq set_total_def acc_completeness_def zero_categories_def zero_acc_def)

lemma update_tree_categories:
  assumes "update_tree rec t = Done t'"
  shows "st_categories t' = calculate_category_metrics (st_fields t') (st_count t')"
proof -
  let ?r = "for_each (field_step rec (st_count t + 1)) (map fst FIELD_STATUS) (t\<lparr>st_count := st_count t + 1\<rparr>)"
  have c: "st_count (state_of ?r) = st_count (t\<lparr>st_count := st_count t + 1\<rparr>)"
    by (rule for_each_keeps [where p = st_count]) (rule field_step_count)
  from assms c show ?thesis
    by (cases ?r) (auto simp: update_tree_def Let_def)
qed

lemma field_loop_fresh:
  assumes "for_each (field_step rec tot) names t = Done t'"
    and "\<forall>k \<in> S. \<forall>f. map_of (st_fields t) k = Some f \<longrightarrow> fs_completeness f = ratio (fs_count f) tot"
  shows "\<forall>k \<in> S \<union> set names. \<forall>f. map_of (st_fields t') k = Some f \<longrightarrow>
           fs_completeness f = ratio (fs_count f) tot"
  using assms
proof (induction names arbitrary: t S)
  case Nil
  then show ?case by simp
next
  case (Cons n names)
  from Cons.prems(1) obtain t1 where t1: "field_step rec tot n t = Done t1"
    "for_each (field_step rec tot) names t1 = Done t'"
    by (cases "field_step rec tot n t") auto
  from t1(1) obtain fs where fs: "map_of (st_fields t) n = Some fs"
    by (cases "map_of (st_fields t) n") (auto simp: field_step_missing)
  from field_step_fields [OF fs, of rec tot] t1(1) obtain fs' where
    st: "t1 = t\<lparr>st_fields := dict_set (st_fields t) n fs'\<rparr>"
    and fresh: "fs_completeness fs' = ratio (fs_count fs') tot"
    by auto
  have "\<forall>k \<in> S \<union> {n}. \<forall>f. map_of (st_fields t1) k = Some f \<longrightarrow>
          fs_completeness f = ratio (fs_count f) tot"
    using Cons.prems(2) fresh by (auto simp: st map_of_dict_set_eq)
  from Cons.IH [OF t1(2) this] show ?case by auto
qed

lemma update_tree_fresh:
  assumes "tree_ok t" "update_tree rec t = Done t'"
  shows "\<forall>f \<in> set (map snd (st_fields t')). fs_completeness f = ratio (fs_count f) (st_count t')"
proof -
  let ?tot = "st_count t + 1"
  let ?r = "for_each (field_step rec ?tot) (map fst FIELD_STATUS) (t\<lparr>st_count := ?tot\<rparr>)"
  from assms(2) obtain t1 where t1: "?r = Done t1"
    and t': "t' = t1\<lparr>st_categories := calculate_category_metrics (st_fields t1) ?tot\<rparr>"
    by (cases ?r) (auto simp: update_tree_def Let_def)
  from update_tree_count [of rec t] assms(2) have cnt: "st_count t' = ?tot" by simp
  from update_tree_ok [OF assms(1), of rec] assms(2) have ok: "tree_ok t'" by simp
  then have keys: "map fst (st_fields t') = field_names"
    by (simp add: tree_ok_def schema_fields_keys)
  with field_names_distinct have dist: "distinct (map fst (st_fields t'))" by simp
  from field_loop_fresh [OF t1, of "{}"]
  have fresh: "\<forall>k \<in> set field_names. \<forall>f. map_of (st_fields t1) k = Some f \<longrightarrow>
                 fs_completeness f = ratio (fs_count f) ?tot"
    by (simp add: field_names_def)
  show ?thesis
  proof
    fix f assume "f \<in> set (map snd (st_fields t'))"
    then obtain k where kf: "(k, f) \<in> set (st_fields t')" by auto
    with dist have m: "map_of (st_fields t') k = Some f" by simp
    from kf have "k \<in> set (map fst (st_fields t'))" by force
    with keys have "k \<in> set field_names" by simp
    with fresh m t' show "fs_completeness f = ratio (fs_count f) (st_count t')"
      unfolding cnt by simp
  qed
qed

lemma merge_fresh:
  assumes "tree_ok a" "tree_ok b"
  shows "\<forall>f \<in> set (map snd (st_fields (merge_type_stats (Some a) (Some b)))).
           fs_completeness f = ratio (fs_count f) (st_count (merge_type_stats (Some a) (Some b)))"
  by (auto simp: merge_type_stats_eq [OF assms] merge_field_def Let_def)

text \<open>So after an update that returns, and after a merge, the stored category completeness
  of every class is the sum of the counts over the record count times the number of fields
  of the class, and the mean of the stored completeness of the fields of the class.\<close>

lemma categories_after_update:
  assumes "tree_ok t" "0 \<le> st_count t" "update_tree rec t = Done t'"
  shows "st_categories t' =
           \<lparr>mandatory = spec_category_completeness ''mandatory'' (st_fields t') (st_count t'),
            recommended = spec_category_completeness ''recommended'' (st_fields t') (st_count t'),
            optional = spec_category_completeness ''optional'' (st_fields t') (st_count t')\<rparr>"
    and "st_categories t' =
           \<lparr>mandatory = spec_mean_completeness ''mandatory'' (st_fields t'),
            recommended = spec_mean_completeness ''recommended'' (st_fields t'),
            optional = spec_mean_completeness ''optional'' (st_fields t')\<rparr>"
proof -
  from update_tree_count [of rec t] assms(2,3) have nn: "0 \<le> st_count t'" by simp
  note r = category_rollup [of "st_count t'" "st_fields t'", THEN mp, OF nn]
  show "st_categories t' =
           \<lparr>mandatory = spec_category_completeness ''mandatory'' (st_fields t') (st_count t'),
            recommended = spec_category_completeness ''recommended'' (st_fields t') (st_count t'),
            optional = spec_category_completeness ''optional'' (st_fields t') (st_count t')\<rparr>"
    unfolding update_tree_categories [OF assms(3)] by (rule r [THEN conjunct1])
  show "st_categories t' =
           \<lparr>mandatory = spec_mean_completeness ''mandatory'' (st_fields t'),
            recommended = spec_mean_completeness ''recommended'' (st_fields t'),
            optional = spec_mean_completeness ''optional'' (st_fields t')\<rparr>"
    unfolding update_tree_categories [OF assms(3)]
    by (rule r [THEN conjunct2, THEN mp, OF update_tree_fresh [OF assms(1,3)]])
qed

lemma categories_after_merge:
  assumes "tree_ok a" "tree_ok b" "0 \<le> st_count a + st_count b"
  shows "st_categories (merge_type_stats (Some a) (Some b)) =
           \<lparr>mandatory = spec_category_completeness ''mandatory''
              (st_fields (merge_type_stats (Some a) (Some b))) (st_count a + st_count b),
            recommended = spec_category_completeness ''recommended''
              (st_fields (merge_type_stats (Some a) (Some b))) (st_count a + st_count b),
            optional = spec_category_completeness ''optional''
              (st_fields (merge_type_stats (Some a) (Some b))) (st_count a + st_count b)\<rparr>"
    and "st_categories (merge_type_stats (Some a) (Some b)) =
           \<lparr>mandatory = spec_mean_completeness ''mandatory'' (st_fields (merge_type_stats (Some a) (Some b))),
            recommended = spec_mean_completeness ''recommended'' (st_fields (merge_type_stats (Some a) (Some b))),
            optional = spec_mean_completeness ''optional'' (st_fields (merge_type_stats (Some a) (Some b)))\<rparr>"
proof -
  let ?m = "merge_type_stats (Some a) (Some b)"
  have c: "st_count ?m = st_count a + st_count b" by (simp add: merge_type_stats_eq [OF assms(1,2)])
  from assms(3) have nn: "0 \<le> st_count ?m" by (simp add: c)
  note r = category_rollup [of "st_count ?m" "st_fields ?m", THEN mp, OF nn]
  show "st_categories ?m =
           \<lparr>mandatory = spec_category_completeness ''mandatory'' (st_fields ?m) (st_count a + st_count b),
            recommended = spec_category_completeness ''recommended'' (st_fields ?m) (st_count a + st_count b),
            optional = spec_category_completeness ''optional'' (st_fields ?m) (st_count a + st_count b)\<rparr>"
    using r [THEN conjunct1] unfolding merge_categories [of "Some a" "Some b"] c .
  show "st_categories ?m =
           \<lparr>mandatory = spec_mean_completeness ''mandatory'' (st_fields ?m),
            recommended = spec_mean_completeness ''recommended'' (st_fields ?m),
            optional = spec_mean_completeness ''optional'' (st_fields ?m)\<rparr>"
    unfolding merge_categories [of "Some a" "Some b"]
    by (rule r [THEN conjunct2, THEN mp, OF merge_fresh [OF assms(1,2)]])
qed

end
